theory Spec2Isabelle
  imports Main "HOL-Library.Word"
begin

section \<open>Bytes, big integers and the library helpers used by staking.go\<close>

text \<open>
  \<open>staking.go\<close> imports \<open>math/big\<close> and \<open>fmt\<close> from the Go library and the packages
  \<open>common\<close>, \<open>hex\<close>, \<open>keccak\<close>, \<open>types\<close>, \<open>chain\<close> and \<open>validators\<close> of
  \<open>github.com/0xPolygon/polygon-edge\<close>. Their sources are not part of the repository.
  The functions of this section are models of the imported functions that
  \<open>staking.go\<close> calls, written after their documented behaviour; the hash function
  alone is left open (see \<open>keccak\<close> below).
\<close>

type_synonym byte = "8 word"

text \<open>
  \<open>types.Hash\<close> is \<open>[32]byte\<close> and \<open>types.Address\<close> is \<open>[20]byte\<close>. Both are
  modelled as byte lists; every hash built below has length 32 (lemma
  \<open>length_BytesToHash\<close>), and the length of an address is a hypothesis where a
  statement depends on it.
\<close>

type_synonym hash = "byte list"

text \<open>
  \<open>math/big\<close>: a \<open>*big.Int\<close> is an \<open>int\<close>. \<open>(*big.Int).Bytes\<close> returns the
  absolute value as a big-endian byte slice without leading zero bytes (empty for 0);
  \<open>(*big.Int).SetBytes\<close> reads a big-endian unsigned integer; \<open>big.NewInt\<close>
  takes an \<open>int64\<close>.
\<close>

fun natBytes :: "nat \<Rightarrow> byte list" where
  "natBytes n = (if n = 0 then [] else natBytes (n div 256) @ [of_nat (n mod 256)])"

declare natBytes.simps [simp del]

definition bytesToNat :: "byte list \<Rightarrow> nat" where
  "bytesToNat bs = foldl (\<lambda>a b. a * 256 + unat b) 0 bs"

definition big_Bytes :: "int \<Rightarrow> byte list" where
  "big_Bytes x = natBytes (nat \<bar>x\<bar>)"

definition big_SetBytes :: "byte list \<Rightarrow> int" where
  "big_SetBytes bs = int (bytesToNat bs)"

definition big_NewInt :: "64 word \<Rightarrow> int" where
  "big_NewInt x = sint x"

text \<open>
  \<open>common.PadLeftOrTrim(bb, size)\<close>: the slice itself when it has the size, its last
  \<open>size\<close> bytes when it is longer, and zero bytes in front of it when it is shorter.
\<close>

definition PadLeftOrTrim :: "byte list \<Rightarrow> nat \<Rightarrow> byte list" where
  "PadLeftOrTrim bb size' =
     (let l = length bb in
      if l = size' then bb
      else if l > size' then drop (l - size') bb
      else replicate (size' - l) 0 @ bb)"

text \<open>
  \<open>types.BytesToHash(b)\<close>: a zero hash into whose right end the last
  \<open>min(len(b), 32)\<close> bytes of \<open>b\<close> are copied.
\<close>

definition HashLength :: nat where
  "HashLength = 32"

definition BytesToHash :: "byte list \<Rightarrow> hash" where
  "BytesToHash b =
     (let n = min (length b) HashLength in
      replicate (HashLength - n) 0 @ drop (length b - n) b)"

definition zeroHash :: hash where
  "zeroHash = replicate HashLength 0"

text \<open>
  Hexadecimal text. \<open>hexText\<close> is what \<open>strconv.AppendUint(_, i, 16)\<close> and
  \<open>(*big.Int).Text(16)\<close> print for a non-negative number: lower-case digits, no
  leading zero, \<open>0\<close> for zero.
\<close>

definition hexDigit :: "nat \<Rightarrow> char" where
  "hexDigit d = char_of (if d < 10 then 48 + d else 87 + d)"

fun hexText :: "nat \<Rightarrow> string" where
  "hexText n = (if n < 16 then [hexDigit n] else hexText (n div 16) @ [hexDigit (n mod 16)])"

declare hexText.simps [simp del]

text \<open>\<open>hex.EncodeUint64\<close>: the prefix \<open>0x\<close> and the digits.\<close>

definition EncodeUint64 :: "64 word \<Rightarrow> string" where
  "EncodeUint64 i = ''0x'' @ hexText (unat i)"

text \<open>
  \<open>hex.EncodeBig\<close>: \<open>0x0\<close> for zero, otherwise the number printed with \<open>%#x\<close>
  (a minus sign, if any, before the prefix).
\<close>

definition EncodeBig :: "int \<Rightarrow> string" where
  "EncodeBig b =
     (if b = 0 then ''0x0''
      else (if b < 0 then ''-'' else []) @ ''0x'' @ hexText (nat \<bar>b\<bar>))"

text \<open>
  \<open>encoding/hex\<close>: \<open>fromHexChar\<close> accepts digits and letters of both cases.
  \<open>hex.DecodeString\<close> decodes pairs of characters; at the first bad character, or at a
  last character without a partner, it returns the bytes decoded so far and an error
  (here: \<open>False\<close>).
\<close>

definition fromHexChar :: "char \<Rightarrow> nat option" where
  "fromHexChar c =
     (let n = (of_char c :: nat) in
      if 48 \<le> n \<and> n \<le> 57 then Some (n - 48)
      else if 97 \<le> n \<and> n \<le> 102 then Some (n - 87)
      else if 65 \<le> n \<and> n \<le> 70 then Some (n - 55)
      else None)"

fun hexDecodeString :: "string \<Rightarrow> byte list \<times> bool" where
  "hexDecodeString [] = ([], True)"
| "hexDecodeString [c] = ([], False)"
| "hexDecodeString (a # b # s) =
     (case (fromHexChar a, fromHexChar b) of
        (Some x, Some y) \<Rightarrow>
          (let (bs, ok) = hexDecodeString s in (of_nat (16 * x + y) # bs, ok))
      | _ \<Rightarrow> ([], False))"

text \<open>\<open>strings.TrimPrefix\<close> and \<open>strings.HasPrefix\<close>.\<close>

definition HasPrefix :: "string \<Rightarrow> string \<Rightarrow> bool" where
  "HasPrefix s p = (take (length p) s = p)"

definition TrimPrefix :: "string \<Rightarrow> string \<Rightarrow> string" where
  "TrimPrefix s p = (if HasPrefix s p then drop (length p) s else s)"

text \<open>
  \<open>types.StringToBytes\<close> drops a prefix \<open>0x\<close>, puts a \<open>0\<close> before a string of odd
  length and decodes it, ignoring the decoder's error; \<open>types.StringToHash\<close> makes a
  hash of the bytes.
\<close>

definition StringToBytes :: "string \<Rightarrow> byte list" where
  "StringToBytes str =
     (let s1 = TrimPrefix str ''0x'';
          s2 = (if length s1 mod 2 = 1 then ''0'' @ s1 else s1)
      in fst (hexDecodeString s2))"

definition StringToHash :: "string \<Rightarrow> hash" where
  "StringToHash str = BytesToHash (StringToBytes str)"

text \<open>
  \<open>(*big.Int).SetString(s, base)\<close> for base 10 or 16: an optional sign, then at least
  one digit of the base, and nothing else.
\<close>

definition digitVal :: "nat \<Rightarrow> char \<Rightarrow> nat option" where
  "digitVal base c =
     (case fromHexChar c of
        None \<Rightarrow> None
      | Some d \<Rightarrow> if d < base then Some d else None)"

fun parseDigits :: "nat \<Rightarrow> nat \<Rightarrow> string \<Rightarrow> nat option" where
  "parseDigits base acc [] = Some acc"
| "parseDigits base acc (c # s) =
     (case digitVal base c of
        None \<Rightarrow> None
      | Some d \<Rightarrow> parseDigits base (acc * base + d) s)"

definition big_SetString :: "string \<Rightarrow> nat \<Rightarrow> int option" where
  "big_SetString s base =
     (let (neg, ds) =
            (case s of
               c # r \<Rightarrow>
                 if c = CHR ''-'' then (True, r)
                 else if c = CHR ''+'' then (False, r)
                 else (False, s)
             | [] \<Rightarrow> (False, s))
      in if ds = [] then None
         else (case parseDigits base 0 ds of
                 None \<Rightarrow> None
               | Some n \<Rightarrow> Some (if neg then - int n else int n)))"

text \<open>
  \<open>types.ParseUint256orHex\<close>, called on the address of a string (never nil): base 16
  after a prefix \<open>0x\<close>, base 10 otherwise; an error when the digits do not parse.
\<close>

definition ParseUint256orHex :: "string \<Rightarrow> string + int" where
  "ParseUint256orHex val =
     (let (str, base) = (if HasPrefix val ''0x'' then (drop 2 val, 16) else (val, 10))
      in case big_SetString str base of
           None \<Rightarrow> Inl ''could not parse''
         | Some b \<Rightarrow> Inr b)"

section \<open>staking.go\<close>

text \<open>
  \<open>keccak.Keccak256(nil, b)\<close> is not part of this file. Every function that hashes
  takes the hash function as its first argument \<open>K\<close>; no property of it is assumed
  beyond what a theorem states as a hypothesis.
\<close>

type_synonym keccak = "byte list \<Rightarrow> byte list"

text \<open>Slot definitions for SC storage.\<close>

definition validatorsSlot :: "64 word" where "validatorsSlot = 0"
definition addressToIsValidatorSlot :: "64 word" where "addressToIsValidatorSlot = 1"
definition addressToStakedAmountSlot :: "64 word" where "addressToStakedAmountSlot = 2"
definition addressToValidatorIndexSlot :: "64 word" where "addressToValidatorIndexSlot = 3"
definition stakedAmountSlot :: "64 word" where "stakedAmountSlot = 4"
definition minNumValidatorSlot :: "64 word" where "minNumValidatorSlot = 5"
definition maxNumValidatorSlot :: "64 word" where "maxNumValidatorSlot = 6"
definition addressToBLSPublicKeySlot :: "64 word" where "addressToBLSPublicKeySlot = 7"

definition DefaultStakedBalance :: string where
  "DefaultStakedBalance = ''0x8AC7230489E80000''"

text \<open>\<open>getAddressMapping\<close>: the key for the storage mapping (address => something).\<close>

definition getAddressMapping :: "keccak \<Rightarrow> byte list \<Rightarrow> 64 word \<Rightarrow> byte list" where
  "getAddressMapping K address slot =
     (let bigSlot = big_NewInt slot;
          finalSlice = PadLeftOrTrim address 32 @ PadLeftOrTrim (big_Bytes bigSlot) 32
      in K finalSlice)"

text \<open>
  \<open>getIndexWithOffset\<close>: the offset is a \<open>uint64\<close> that the code converts with
  \<open>int64(offset)\<close> before \<open>big.NewInt\<close>, so \<open>big_NewInt\<close> reads the same 64 bits as
  a signed number.
\<close>

definition getIndexWithOffset :: "byte list \<Rightarrow> 64 word \<Rightarrow> byte list" where
  "getIndexWithOffset keccakHash offset =
     (let bigOffset = big_NewInt offset;
          bigKeccak = big_SetBytes keccakHash
      in big_Bytes (bigKeccak + bigOffset))"

text \<open>
  A validator is an \<open>ECDSAValidator\<close> (an address) or a \<open>BLSValidator\<close> (an address
  and a BLS public key); \<open>Addr\<close> is the method of the interface.
\<close>

datatype Validator =
    ECDSAValidator (Addr: "byte list")
  | BLSValidator (Addr: "byte list") (BLSPublicKey: "byte list")

record StorageIndexes =
  ValidatorsIndex :: "byte list"
  ValidatorBLSPublicKeyIndex :: "byte list"
  AddressToIsValidatorIndex :: "byte list"
  AddressToStakedAmountIndex :: "byte list"
  AddressToValidatorIndexIndex :: "byte list"

text \<open>
  \<open>getStorageIndexes\<close>: \<open>index\<close> is the 64 bits of the \<open>int\<close> argument, which
  \<open>uint64(index)\<close> passes on unchanged.
\<close>

definition getStorageIndexes :: "keccak \<Rightarrow> Validator \<Rightarrow> 64 word \<Rightarrow> StorageIndexes" where
  "getStorageIndexes K validator index =
     (let address = Addr validator in
      \<lparr> ValidatorsIndex =
          getIndexWithOffset
            (K (PadLeftOrTrim (big_Bytes (big_NewInt validatorsSlot)) 32)) index,
        ValidatorBLSPublicKeyIndex = getAddressMapping K address addressToBLSPublicKeySlot,
        AddressToIsValidatorIndex = getAddressMapping K address addressToIsValidatorSlot,
        AddressToStakedAmountIndex = getAddressMapping K address addressToStakedAmountSlot,
        AddressToValidatorIndexIndex =
          getAddressMapping K address addressToValidatorIndexSlot \<rparr>)"

text \<open>
  The storage map is a Go \<open>map[types.Hash]types.Hash\<close>: reading a key that is not
  there gives the zero hash.
\<close>

type_synonym storage = "hash \<rightharpoonup> hash"

definition mapGet :: "storage \<Rightarrow> hash \<Rightarrow> hash" where
  "mapGet m k = (case m k of None \<Rightarrow> zeroHash | Some v \<Rightarrow> v)"

text \<open>
  \<open>setBytesToStorage\<close>. \<open>setBytesStep\<close> is the body of its loop for one \<open>i\<close>;
  the loop runs \<open>i\<close> from 0 to \<open>dataLen - 1\<close>, so \<open>data[i]\<close> is always in range,
  and \<open>byteIndex\<close> is less than 32, the length of a slot. \<open>byte(n)\<close> of an \<open>int\<close>
  keeps the low 8 bits, which \<open>of_nat\<close> into an 8-bit word does.
\<close>

definition setBytesStep :: "byte list \<Rightarrow> byte list \<Rightarrow> nat \<Rightarrow> storage \<Rightarrow> storage" where
  "setBytesStep zeroIndex data' i storageMap =
     (let numBytesInSlot = 256 div 8;
          offset = i div numBytesInSlot;
          slotIndex = BytesToHash (getIndexWithOffset zeroIndex (of_nat offset));
          byteIndex = i mod numBytesInSlot;
          slot = mapGet storageMap slotIndex
      in storageMap(slotIndex \<mapsto> slot[byteIndex := data' ! i]))"

definition setBytesToStorage :: "keccak \<Rightarrow> storage \<Rightarrow> byte list \<Rightarrow> byte list \<Rightarrow> storage" where
  "setBytesToStorage K storageMap baseIndexBytes data' =
     (let dataLen = length data';
          baseIndex = BytesToHash baseIndexBytes
      in if dataLen \<le> 31 then
           (let bytes = data' @ replicate (HashLength - dataLen) 0
            in storageMap(baseIndex \<mapsto> bytes[HashLength - 1 := of_nat (dataLen * 2)]))
         else
           (let baseSlot = zeroHash[31 := of_nat (2 * dataLen + 1)];
                m1 = storageMap(baseIndex \<mapsto> baseSlot);
                zeroIndex = K baseIndexBytes
            in fold (setBytesStep zeroIndex data') [0..<dataLen] m1))"

record PredeployParams =
  MinValidatorCount :: "64 word"
  MaxValidatorCount :: "64 word"

text \<open>
  \<open>chain.GenesisAccount\<close>, with the fields the function sets. \<open>Code\<close> is the decoded
  constant \<open>StakingSCBytecode\<close>, which no function here inspects: it is the argument
  \<open>scHex\<close> of \<open>PredeployStakingSC\<close>.
\<close>

record GenesisAccount =
  Code :: "byte list"
  Storage :: storage
  Balance :: int

text \<open>
  The body of the loop over the validators, for the index \<open>idx\<close>: the state is the
  storage map and the staked amount so far. The loop runs \<open>idx\<close> from 0 to
  \<open>vals.Len() - 1\<close>, so \<open>vals.At(uint64(idx))\<close> is always in range.
\<close>

definition predeployValidator ::
  "keccak \<Rightarrow> int \<Rightarrow> Validator list \<Rightarrow> nat \<Rightarrow> storage \<times> int \<Rightarrow> storage \<times> int" where
  "predeployValidator K bigDefaultStakedBalance vals idx st =
     (let storageMap = fst st;
          validator = vals ! idx;
          stakedAmount = snd st + bigDefaultStakedBalance;
          storageIndexes = getStorageIndexes K validator (of_nat idx);
          m1 = storageMap(BytesToHash (ValidatorsIndex storageIndexes)
                 \<mapsto> BytesToHash (Addr validator));
          m2 = (case validator of
                  BLSValidator a pk \<Rightarrow>
                    setBytesToStorage K m1 (ValidatorBLSPublicKeyIndex storageIndexes) pk
                | ECDSAValidator a \<Rightarrow> m1);
          m3 = m2(BytesToHash (AddressToIsValidatorIndex storageIndexes)
                 \<mapsto> BytesToHash (big_Bytes (big_NewInt 1)));
          m4 = m3(BytesToHash (AddressToStakedAmountIndex storageIndexes)
                 \<mapsto> StringToHash (EncodeBig bigDefaultStakedBalance));
          m5 = m4(BytesToHash (AddressToValidatorIndexIndex storageIndexes)
                 \<mapsto> StringToHash (EncodeUint64 (of_nat idx)))
      in (m5, stakedAmount))"

text \<open>
  \<open>PredeployStakingSC\<close>, on a validator set without nil pointers. The validator set
  is an interface value that may be nil: \<open>None\<close> is the nil interface value,
  \<open>Some vs\<close> a set whose \<open>Len\<close> is \<open>length vs\<close> and whose \<open>At i\<close> is \<open>vs ! i\<close>.
  The result is the error (\<open>Inl\<close>) or the account (\<open>Inr\<close>). What the call does when
  the set or one of its elements is a nil pointer is \<open>PredeployStakingSC_call\<close> below.
\<close>

definition PredeployStakingSC ::
  "keccak \<Rightarrow> byte list \<Rightarrow> Validator list option \<Rightarrow> PredeployParams \<Rightarrow> string + GenesisAccount" where
  "PredeployStakingSC K scHex vals params =
     (case ParseUint256orHex DefaultStakedBalance of
        Inl err \<Rightarrow> Inl (''unable to generate DefaultStatkedBalance, '' @ err)
      | Inr bigDefaultStakedBalance \<Rightarrow>
          (let bigMinNumValidators = big_NewInt (MinValidatorCount params);
               bigMaxNumValidators = big_NewInt (MaxValidatorCount params);
               (valsLen, storageMap, stakedAmount) =
                 (case vals of
                    None \<Rightarrow> (0, Map.empty, 0)
                  | Some vs \<Rightarrow>
                      (let st = fold (predeployValidator K bigDefaultStakedBalance vs)
                                  [0..<length vs] (Map.empty, 0)
                       in (big_NewInt (of_nat (length vs)), fst st, snd st)));
               m1 = storageMap(BytesToHash (big_Bytes (big_NewInt stakedAmountSlot))
                      \<mapsto> BytesToHash (big_Bytes stakedAmount));
               m2 = m1(BytesToHash (big_Bytes (big_NewInt validatorsSlot))
                      \<mapsto> BytesToHash (big_Bytes valsLen));
               m3 = m2(BytesToHash (big_Bytes (big_NewInt minNumValidatorSlot))
                      \<mapsto> BytesToHash (big_Bytes bigMinNumValidators));
               m4 = m3(BytesToHash (big_Bytes (big_NewInt maxNumValidatorSlot))
                      \<mapsto> BytesToHash (big_Bytes bigMaxNumValidators))
           in Inr \<lparr> Code = scHex, Storage = m4, Balance = stakedAmount \<rparr>))"

text \<open>
  The call with every value Go can pass. \<open>vals\<close> has the interface type
  \<open>validators.Validators\<close>, implemented by the pointer type \<open>*validators.Set\<close>, a
  struct with a slice of \<open>validators.Validator\<close> interface values, which the pointer
  types \<open>*ECDSAValidator\<close> and \<open>*BLSValidator\<close> implement. So three things can be nil:
  \<^item> the interface value itself (\<open>NilValidators\<close>): the guard \<open>vals != nil\<close> skips the
    loop;
  \<^item> the pointer inside a non-nil interface value (\<open>NilSetPointer\<close>): the guard
    \<open>vals != nil\<close> lets it pass, and \<open>vals.Len()\<close> dereferences the nil pointer;
  \<^item> an element of the slice (\<open>None\<close> in a \<open>ValidatorSet\<close>), a nil interface value or
    a nil pointer: \<open>validator.Addr()\<close>, the first statement of \<open>getStorageIndexes\<close>
    that uses the validator, dereferences it.
  A nil dereference is a run-time panic: the call returns nothing (\<open>Panic\<close>), whatever
  the iterations before it wrote to the local map. The constant is parsed, and its error
  returned, before \<open>vals\<close> is looked at.
\<close>

datatype Validators =
    NilValidators
  | NilSetPointer
  | ValidatorSet "Validator option list"

datatype 'a outcome = Panic | Returns 'a

definition PredeployStakingSC_call ::
  "keccak \<Rightarrow> byte list \<Rightarrow> Validators \<Rightarrow> PredeployParams
     \<Rightarrow> (string + GenesisAccount) outcome" where
  "PredeployStakingSC_call K scHex vals params =
     (case ParseUint256orHex DefaultStakedBalance of
        Inl err \<Rightarrow> Returns (Inl (''unable to generate DefaultStatkedBalance, '' @ err))
      | Inr bigDefaultStakedBalance \<Rightarrow>
          (case vals of
             NilValidators \<Rightarrow> Returns (PredeployStakingSC K scHex None params)
           | NilSetPointer \<Rightarrow> Panic
           | ValidatorSet elems \<Rightarrow>
               if None \<in> set elems then Panic
               else Returns (PredeployStakingSC K scHex (Some (map the elems)) params)))"

section \<open>Definitions used to state the properties\<close>

text \<open>
  The key of the \<open>k\<close>-th data slot of a long byte string: \<open>slotIndex\<close> in the loop of
  \<open>setBytesToStorage\<close>, where \<open>zeroIndex\<close> is the hash of the base key bytes.
\<close>

definition slotKey :: "byte list \<Rightarrow> nat \<Rightarrow> hash" where
  "slotKey zeroIndex k = BytesToHash (getIndexWithOffset zeroIndex (of_nat k))"

text \<open>
  Reading \<open>n\<close> bytes back by the rule of the loop: byte \<open>i\<close> is byte \<open>i mod 32\<close> of the
  slot \<open>i div 32\<close>.
\<close>

definition decodeBytes :: "storage \<Rightarrow> byte list \<Rightarrow> nat \<Rightarrow> byte list" where
  "decodeBytes m zeroIndex n =
     map (\<lambda>i. mapGet m (slotKey zeroIndex (i div 32)) ! (i mod 32)) [0..<n]"

text \<open>Every value of a storage map is a \<open>types.Hash\<close>: 32 bytes.\<close>

definition wfStorage :: "storage \<Rightarrow> bool" where
  "wfStorage m = (\<forall>k v. m k = Some v \<longrightarrow> length v = 32)"

text \<open>The number of validators: \<open>vals.Len()\<close>, and 0 for the nil set.\<close>

definition numValidators :: "Validator list option \<Rightarrow> nat" where
  "numValidators vals = (case vals of None \<Rightarrow> 0 | Some vs \<Rightarrow> length vs)"

text \<open>A validator set without a nil pointer, neither the set nor one of its elements.\<close>

fun noNilPointer :: "Validators \<Rightarrow> bool" where
  "noNilPointer NilValidators = True"
| "noNilPointer NilSetPointer = False"
| "noNilPointer (ValidatorSet elems) = (None \<notin> set elems)"

text \<open>
  The keys that \<open>setBytesToStorage\<close> writes: the base key and, for a payload of 32
  bytes or more, the keys of the data slots.
\<close>

definition bytesKeys :: "keccak \<Rightarrow> byte list \<Rightarrow> byte list \<Rightarrow> hash list" where
  "bytesKeys K baseIndexBytes data' =
     BytesToHash baseIndexBytes #
       (if length data' \<le> 31 then []
        else map (slotKey (K baseIndexBytes)) [0..<(length data' + 31) div 32])"

text \<open>
  The keys that the loop of \<open>PredeployStakingSC\<close> writes for the validator at the index
  \<open>idx\<close>: four keys for every validator (\<open>validatorKeys\<close>), and the keys of the packed
  BLS public key for a \<open>BLSValidator\<close>.
\<close>

definition validatorKeys :: "keccak \<Rightarrow> Validator \<Rightarrow> nat \<Rightarrow> hash list" where
  "validatorKeys K validator idx =
     (let storageIndexes = getStorageIndexes K validator (of_nat idx) in
      [BytesToHash (ValidatorsIndex storageIndexes),
       BytesToHash (AddressToIsValidatorIndex storageIndexes),
       BytesToHash (AddressToStakedAmountIndex storageIndexes),
       BytesToHash (AddressToValidatorIndexIndex storageIndexes)])"

definition writtenKeys :: "keccak \<Rightarrow> Validator \<Rightarrow> nat \<Rightarrow> hash list" where
  "writtenKeys K validator idx =
     validatorKeys K validator idx @
     (case validator of
        ECDSAValidator a \<Rightarrow> []
      | BLSValidator a pk \<Rightarrow>
          bytesKeys K (ValidatorBLSPublicKeyIndex (getStorageIndexes K validator (of_nat idx))) pk)"

text \<open>
  The keys a statement about one validator speaks of: the keys written for it and, also
  for a validator without a BLS public key, the key of the BLS public key mapping.
\<close>

definition ownKeys :: "keccak \<Rightarrow> Validator \<Rightarrow> nat \<Rightarrow> hash list" where
  "ownKeys K validator idx =
     validatorKeys K validator idx @
     bytesKeys K (ValidatorBLSPublicKeyIndex (getStorageIndexes K validator (of_nat idx)))
       (case validator of ECDSAValidator a \<Rightarrow> [] | BLSValidator a pk \<Rightarrow> pk)"

text \<open>The keys of the four scalar slots, written after the loop.\<close>

definition scalarKeys :: "hash list" where
  "scalarKeys =
     map (\<lambda>slot. BytesToHash (big_Bytes (big_NewInt slot)))
       [stakedAmountSlot, validatorsSlot, minNumValidatorSlot, maxNumValidatorSlot]"

section \<open>An example run\<close>

text \<open>
  A stand-in for the hash function in the examples, simple enough to evaluate: the byte
  \<open>0xFF\<close>, bytes 12 to 31 of the input, ten zero bytes and the last byte of the
  input. On \<open>pad32(address) @ pad32(slot)\<close> it keeps the address and the slot.
\<close>

definition toyKeccak :: keccak where
  "toyKeccak bs =
     0xFF # take 20 (drop 12 bs) @ replicate 10 0 @ [if bs = [] then 0 else last bs]"

text \<open>
  Two validators: one with a BLS public key of 48 bytes, one without a BLS public key.
\<close>

definition exampleValidators :: "Validator list" where
  "exampleValidators =
     [BLSValidator (replicate 20 0x11) (replicate 48 0x22),
      ECDSAValidator (replicate 20 0x33)]"

definition exampleParams :: PredeployParams where
  "exampleParams = \<lparr> MinValidatorCount = 1, MaxValidatorCount = 5 \<rparr>"

text \<open>Two validators with the same address.\<close>

definition duplicateValidators :: "Validator list" where
  "duplicateValidators =
     [ECDSAValidator (replicate 20 0x33), ECDSAValidator (replicate 20 0x33)]"

section \<open>Lemmas: bytes and numbers\<close>

lemma sint_neg_abs: "\<bar>sint (- s :: 64 word)\<bar> = \<bar>sint s\<bar>"
proof (cases "sint s = - (2 ^ 63)")
  case True
  then have "word_of_int (sint s) = (word_of_int (- (2 ^ 63)) :: 64 word)" by simp
  then have "s = - (2 ^ 63)" by simp
  then show ?thesis by simp
next
  case False
  have lo: "- (2 ^ 63) \<le> sint s" using sint_ge [of s] by simp
  have hi: "sint s < 2 ^ 63" using sint_lt [of s] by simp
  have "sint (- s) = signed_take_bit 63 (- sint s)"
    by (simp add: sint_word_minus)
  also have "\<dots> = - sint s"
    using False lo hi by (intro signed_take_bit_int_eq_self) auto
  finally show ?thesis by simp
qed

lemma replicate_numeral: "replicate (numeral v) x = x # replicate (numeral v - 1) x"
  by (simp add: numeral_eq_Suc)

lemma unat_byte_lt: "unat (b :: byte) < 256"
  using unsigned_less [of b, where 'a = nat] by simp

lemma bytesToNat_Nil [simp]: "bytesToNat [] = 0"
  by (simp add: bytesToNat_def)

lemma bytesToNat_snoc [simp]: "bytesToNat (xs @ [b]) = bytesToNat xs * 256 + unat b"
  by (simp add: bytesToNat_def)

lemma bytesToNat_append:
  "bytesToNat (xs @ ys) = bytesToNat xs * 256 ^ length ys + bytesToNat ys"
proof (induction ys rule: rev_induct)
  case Nil
  then show ?case by simp
next
  case (snoc y ys)
  have "bytesToNat (xs @ ys @ [y]) = bytesToNat ((xs @ ys) @ [y])" by simp
  also have "\<dots> = bytesToNat (xs @ ys) * 256 + unat y" by (rule bytesToNat_snoc)
  finally show ?case using snoc by (simp add: algebra_simps)
qed

lemma bytesToNat_Cons:
  "bytesToNat (b # xs) = unat b * 256 ^ length xs + bytesToNat xs"
  using bytesToNat_append [of "[b]" xs] bytesToNat_snoc [of "[]" b] by simp

lemma bytesToNat_replicate0 [simp]: "bytesToNat (replicate k 0) = 0"
  by (induction k) (simp_all add: bytesToNat_Cons)

lemma bytesToNat_pad [simp]: "bytesToNat (replicate k 0 @ xs) = bytesToNat xs"
  by (simp add: bytesToNat_append)

lemma bytesToNat_lt: "bytesToNat xs < 256 ^ length xs"
proof (induction xs rule: rev_induct)
  case Nil
  then show ?case by simp
next
  case (snoc x xs)
  have "unat x < 256" by (rule unat_byte_lt)
  moreover have "bytesToNat xs + 1 \<le> 256 ^ length xs" using snoc by simp
  then have "(bytesToNat xs + 1) * 256 \<le> 256 ^ length xs * 256"
    by (rule mult_le_mono1)
  ultimately show ?case by simp
qed

lemma bytesToNat_natBytes [simp]: "bytesToNat (natBytes n) = n"
proof (induction n rule: natBytes.induct)
  case (1 n)
  show ?case
  proof (cases "n = 0")
    case True
    then show ?thesis by (simp add: natBytes.simps)
  next
    case False
    have "unat (of_nat (n mod 256) :: byte) = n mod 256"
      by (simp add: unat_of_nat)
    with False 1 show ?thesis
      by (subst natBytes.simps) simp
  qed
qed

lemma bytesToNat_drop:
  "bytesToNat (drop k xs) = bytesToNat xs mod 256 ^ (length xs - k)"
proof -
  have "bytesToNat xs = bytesToNat (take k xs) * 256 ^ (length xs - k) + bytesToNat (drop k xs)"
    using bytesToNat_append [of "take k xs" "drop k xs"] by simp
  then have "bytesToNat xs mod 256 ^ (length xs - k) =
      bytesToNat (drop k xs) mod 256 ^ (length xs - k)"
    by simp
  moreover have "bytesToNat (drop k xs) < 256 ^ (length xs - k)"
    using bytesToNat_lt [of "drop k xs"] by simp
  ultimately show ?thesis by simp
qed

lemma length_BytesToHash [simp]: "length (BytesToHash b) = 32"
  by (simp add: BytesToHash_def HashLength_def Let_def)

lemma bytesToNat_BytesToHash: "bytesToNat (BytesToHash b) = bytesToNat b mod 2 ^ 256"
proof (cases "length b \<le> 32")
  case True
  have "bytesToNat b < 256 ^ length b" by (rule bytesToNat_lt)
  also have "\<dots> \<le> (256::nat) ^ 32" using True by (intro power_increasing) auto
  finally have "bytesToNat b < 2 ^ 256" by simp
  with True show ?thesis
    by (simp add: BytesToHash_def HashLength_def Let_def min_def)
next
  case False
  then have "bytesToNat (BytesToHash b) = bytesToNat (drop (length b - 32) b)"
    by (simp add: BytesToHash_def HashLength_def Let_def min_def)
  also have "\<dots> = bytesToNat b mod 256 ^ 32"
    using False by (simp add: bytesToNat_drop)
  finally show ?thesis by simp
qed

lemma bytesToNat_inj:
  "length xs = length ys \<Longrightarrow> bytesToNat xs = bytesToNat ys \<Longrightarrow> xs = ys"
proof (induction xs arbitrary: ys rule: rev_induct)
  case Nil
  then show ?case by simp
next
  case (snoc x xs zs)
  from snoc.prems obtain y ys where zs: "zs = ys @ [y]"
    by (cases zs rule: rev_cases) auto
  have x: "unat x < 256" by (rule unat_byte_lt)
  have y: "unat y < 256" by (rule unat_byte_lt)
  from snoc.prems zs have eq: "bytesToNat xs * 256 + unat x = bytesToNat ys * 256 + unat y"
    by simp
  from eq x y have "unat x = unat y"
    by (metis mod_mult_self3 mod_less)
  with eq have "bytesToNat xs = bytesToNat ys" by simp
  moreover from snoc.prems zs have "length xs = length ys" by simp
  ultimately have "xs = ys" by (rule snoc.IH [rotated])
  moreover from \<open>unat x = unat y\<close> have "x = y" by (rule word_unat_eq_iff [THEN iffD2])
  ultimately show ?case using zs by simp
qed

lemma length_natBytes_le: "n < 256 ^ k \<Longrightarrow> length (natBytes n) \<le> k"
proof (induction n arbitrary: k rule: natBytes.induct)
  case (1 n)
  show ?case
  proof (cases "n = 0")
    case True
    then show ?thesis by (simp add: natBytes.simps)
  next
    case False
    with 1(2) obtain k' where k: "k = Suc k'" by (cases k) auto
    with 1(2) have "n div 256 < 256 ^ k'"
      by (simp add: less_mult_imp_div_less mult.commute)
    with 1(1) False have "length (natBytes (n div 256)) \<le> k'" by simp
    with False k show ?thesis by (subst natBytes.simps) simp
  qed
qed

lemma natBytes_bytesToNat: "natBytes (bytesToNat bs) = dropWhile (\<lambda>b. b = 0) bs"
proof (induction bs rule: rev_induct)
  case Nil
  then show ?case by (simp add: natBytes.simps)
next
  case (snoc x xs)
  have x: "unat x < 256" by (rule unat_byte_lt)
  show ?case
  proof (cases "bytesToNat xs * 256 + unat x = 0")
    case True
    then have "x = 0" and z: "bytesToNat xs = 0" by (simp_all add: unat_eq_0)
    from z snoc have "dropWhile (\<lambda>b. b = 0) xs = []" by (simp add: natBytes.simps)
    then have "\<forall>b\<in>set xs. b = 0" by simp
    with \<open>x = 0\<close> True show ?thesis by (simp add: natBytes.simps)
  next
    case False
    have d: "(bytesToNat xs * 256 + unat x) div 256 = bytesToNat xs" using x by simp
    have m: "(bytesToNat xs * 256 + unat x) mod 256 = unat x" using x by simp
    have "natBytes (bytesToNat (xs @ [x])) = natBytes (bytesToNat xs) @ [x]"
      using False d m by (simp add: natBytes.simps [of "bytesToNat xs * 256 + unat x"])
    also have "\<dots> = dropWhile (\<lambda>b. b = 0) xs @ [x]" using snoc by simp
    also have "\<dots> = dropWhile (\<lambda>b. b = 0) (xs @ [x])"
    proof (cases "\<forall>b\<in>set xs. b = 0")
      case True
      then have "dropWhile (\<lambda>b. b = 0) xs = []" by simp
      with snoc have "bytesToNat xs = 0"
        by (metis bytesToNat_Nil bytesToNat_natBytes)
      with False have "x \<noteq> 0" by (auto simp: unat_eq_0)
      with True show ?thesis by (simp add: dropWhile_append)
    next
      case False
      then show ?thesis by auto
    qed
    finally show ?thesis .
  qed
qed

section \<open>Lemmas: the keys of the data slots\<close>

lemma getIndexWithOffset_nat:
  "bytesToNat (getIndexWithOffset H n) = nat \<bar>int (bytesToNat H) + sint n\<bar>"
  by (simp add: getIndexWithOffset_def big_Bytes_def big_SetBytes_def big_NewInt_def)

lemma sint_of_nat_64: "k < 2 ^ 63 \<Longrightarrow> sint (of_nat k :: 64 word) = int k"
proof -
  assume k: "k < 2 ^ 63"
  have "sint (of_nat k :: 64 word) = signed_take_bit 63 (int k)"
    using signed_of_nat [of k, where 'a = int and 'b = 64] by simp
  also have "\<dots> = int k"
    using k by (intro signed_take_bit_int_eq_self) auto
  finally show ?thesis .
qed

lemma getIndexWithOffset_of_nat:
  "k < 2 ^ 63 \<Longrightarrow> bytesToNat (getIndexWithOffset H (of_nat k)) = bytesToNat H + k"
  by (simp add: getIndexWithOffset_nat sint_of_nat_64)

lemma slotKey_value:
  "k < 2 ^ 63 \<Longrightarrow> bytesToNat (slotKey z k) = (bytesToNat z + k) mod 2 ^ 256"
  by (simp add: slotKey_def bytesToNat_BytesToHash getIndexWithOffset_of_nat)

lemma mod_add_inj_le:
  fixes a k k' q :: nat
  assumes "(a + k) mod q = (a + k') mod q" "k \<le> k'" "k' < q"
  shows "k = k'"
proof -
  have "a + k \<le> a + k'" using assms(2) by simp
  then have "(a + k') mod q = (a + k) mod q \<longleftrightarrow> q dvd (a + k') - (a + k)"
    by (rule mod_eq_dvd_iff_nat)
  with assms(1) have "q dvd (a + k') - (a + k)" by simp
  then have "q dvd k' - k" by simp
  moreover have "k' - k < q" using assms(3) by simp
  ultimately have "k' - k = 0" by (meson dvd_imp_le not_less zero_less_iff_neq_zero)
  with assms(2) show ?thesis by simp
qed

lemma mod_add_inj:
  fixes a k k' q :: nat
  assumes "(a + k) mod q = (a + k') mod q" "k < q" "k' < q"
  shows "k = k'"
proof (cases "k \<le> k'")
  case True
  with assms show ?thesis by (intro mod_add_inj_le [of a k q k']) auto
next
  case False
  with assms have "k' = k" by (intro mod_add_inj_le [of a k' q k]) auto
  then show ?thesis by simp
qed

lemma slotKey_inj:
  assumes "k < 2 ^ 63" "k' < 2 ^ 63" "slotKey z k = slotKey z k'"
  shows "k = k'"
proof -
  have "bytesToNat (slotKey z k) = bytesToNat (slotKey z k')"
    using assms(3) by simp
  then have "(bytesToNat z + k) mod 2 ^ 256 = (bytesToNat z + k') mod 2 ^ 256"
    by (simp only: slotKey_value [OF assms(1)] slotKey_value [OF assms(2)])
  moreover have "k < 2 ^ 256" using assms(1) by (rule less_trans) simp
  moreover have "k' < 2 ^ 256" using assms(2) by (rule less_trans) simp
  ultimately show ?thesis by (rule mod_add_inj)
qed

section \<open>Lemmas: the loop of setBytesToStorage\<close>

lemma length_zeroHash [simp]: "length zeroHash = 32"
  by (simp add: zeroHash_def HashLength_def)

lemma zeroHash_nth [simp]: "p < 32 \<Longrightarrow> zeroHash ! p = 0"
  by (simp add: zeroHash_def HashLength_def)

lemma length_mapGet: "wfStorage m \<Longrightarrow> length (mapGet m k) = 32"
  by (auto simp: wfStorage_def mapGet_def split: option.splits)

lemma mapGet_upd_same [simp]: "mapGet (m(k \<mapsto> v)) k = v"
  by (simp add: mapGet_def)

lemma mapGet_upd_other [simp]: "k' \<noteq> k \<Longrightarrow> mapGet (m(k \<mapsto> v)) k' = mapGet m k'"
  by (simp add: mapGet_def)

lemma wfStorage_upd: "wfStorage m \<Longrightarrow> length v = 32 \<Longrightarrow> wfStorage (m(k \<mapsto> v))"
  by (simp add: wfStorage_def)

lemma wfStorage_empty [simp]: "wfStorage Map.empty"
  by (simp add: wfStorage_def)

lemma setBytesStep_wf: "wfStorage m \<Longrightarrow> wfStorage (setBytesStep z data' i m)"
  unfolding setBytesStep_def Let_def
  by (rule wfStorage_upd) (simp_all add: length_mapGet)

lemma loop_wf:
  "wfStorage m0 \<Longrightarrow> wfStorage (fold (setBytesStep z data') [0..<n] m0)"
  by (induction n) (simp_all add: setBytesStep_wf)

lemma loop_Suc:
  "fold (setBytesStep z data') [0..<Suc n] m0 =
     (fold (setBytesStep z data') [0..<n] m0)
       (slotKey z (n div 32) \<mapsto>
          (mapGet (fold (setBytesStep z data') [0..<n] m0) (slotKey z (n div 32)))
            [n mod 32 := data' ! n])"
  by (simp add: setBytesStep_def slotKey_def Let_def)

lemma loop_Suc_same:
  "fold (setBytesStep z data') [0..<Suc n] m0 (slotKey z (n div 32)) =
     Some ((mapGet (fold (setBytesStep z data') [0..<n] m0) (slotKey z (n div 32)))
             [n mod 32 := data' ! n])"
  by (subst loop_Suc) simp

lemma loop_Suc_other:
  "key \<noteq> slotKey z (n div 32) \<Longrightarrow>
   fold (setBytesStep z data') [0..<Suc n] m0 key = fold (setBytesStep z data') [0..<n] m0 key"
  by (subst loop_Suc) simp

lemma loop_frame:
  "(\<And>k. k * 32 < n \<Longrightarrow> key \<noteq> slotKey z k) \<Longrightarrow>
   fold (setBytesStep z data') [0..<n] m0 key = m0 key"
proof (induction n)
  case 0
  then show ?case by simp
next
  case (Suc n)
  have "n div 32 * 32 < Suc n" by (simp add: less_Suc_eq_le)
  then have ne: "key \<noteq> slotKey z (n div 32)" by (rule Suc.prems)
  have "fold (setBytesStep z data') [0..<n] m0 key = m0 key"
    using Suc.prems by (intro Suc.IH) auto
  with loop_Suc_other [OF ne] show ?case by simp
qed

lemma loop_dom:
  "k * 32 < n \<Longrightarrow> fold (setBytesStep z data') [0..<n] m0 (slotKey z k) \<noteq> None"
proof (induction n)
  case 0
  then show ?case by simp
next
  case (Suc n)
  show ?case
  proof (cases "slotKey z k = slotKey z (n div 32)")
    case True
    then show ?thesis using loop_Suc_same [of z data' n m0] by simp
  next
    case False
    then have "k \<noteq> n div 32" by auto
    with Suc.prems have "k * 32 < n" by (cases "k * 32 = n") auto
    then have "fold (setBytesStep z data') [0..<n] m0 (slotKey z k) \<noteq> None"
      by (rule Suc.IH)
    with loop_Suc_other [OF False] show ?thesis by simp
  qed
qed

lemma loop_bytes:
  assumes wf: "wfStorage m0" and k: "k < 2 ^ 63" and p: "p < 32"
  shows "n \<le> 2 ^ 63 \<Longrightarrow>
    mapGet (fold (setBytesStep z data') [0..<n] m0) (slotKey z k) ! p =
      (if 32 * k + p < n then data' ! (32 * k + p) else mapGet m0 (slotKey z k) ! p)"
proof (induction n)
  case 0
  then show ?case by simp
next
  case (Suc n)
  let ?L = "fold (setBytesStep z data') [0..<n] m0"
  let ?L' = "fold (setBytesStep z data') [0..<Suc n] m0"
  have IH: "mapGet ?L (slotKey z k) ! p =
      (if 32 * k + p < n then data' ! (32 * k + p) else mapGet m0 (slotKey z k) ! p)"
    using Suc by simp
  have len: "length (mapGet ?L (slotKey z k)) = 32"
    using wf by (intro length_mapGet loop_wf)
  have nd: "n div 32 < 2 ^ 63" using Suc.prems by (simp add: div_less_iff_less_mult)
  show ?case
  proof (cases "k = n div 32")
    case True
    have get: "mapGet ?L' (slotKey z k) = (mapGet ?L (slotKey z k))[n mod 32 := data' ! n]"
      unfolding True mapGet_def [of ?L'] loop_Suc_same by simp
    show ?thesis
    proof (cases "p = n mod 32")
      case True
      with \<open>k = n div 32\<close> have "32 * k + p = n" by simp
      moreover have "mapGet ?L' (slotKey z k) ! p = data' ! n"
        unfolding get using True len p by simp
      ultimately show ?thesis by simp
    next
      case False
      with \<open>k = n div 32\<close> have "32 * k + p \<noteq> n"
        using mult_div_mod_eq [of 32 n] by arith
      then have "32 * k + p < Suc n \<longleftrightarrow> 32 * k + p < n" by auto
      moreover have "mapGet ?L' (slotKey z k) ! p = mapGet ?L (slotKey z k) ! p"
        unfolding get using False by simp
      ultimately show ?thesis using IH by simp
    qed
  next
    case False
    then have ne: "slotKey z k \<noteq> slotKey z (n div 32)"
      using slotKey_inj [OF k nd] by auto
    have "mapGet ?L' (slotKey z k) = mapGet ?L (slotKey z k)"
      unfolding mapGet_def loop_Suc_other [OF ne] by simp
    moreover from False p have "32 * k + p \<noteq> n" by arith
    then have "32 * k + p < Suc n \<longleftrightarrow> 32 * k + p < n" by auto
    ultimately show ?thesis using IH by simp
  qed
qed

section \<open>Lemmas: setBytesToStorage\<close>

lemma setBytesToStorage_long:
  "32 \<le> length data' \<Longrightarrow>
   setBytesToStorage K m base data' =
     fold (setBytesStep (K base) data') [0..<length data']
       (m(BytesToHash base \<mapsto> zeroHash[31 := of_nat (2 * length data' + 1)]))"
  by (simp add: setBytesToStorage_def Let_def)

lemma unat_of_nat_byte: "x < 256 \<Longrightarrow> unat (of_nat x :: byte) = x"
  by (simp add: unat_of_nat)

lemma short_slot:
  "n \<le> 31 \<Longrightarrow> length xs = n \<Longrightarrow>
   (xs @ replicate (32 - n) 0)[31 := x] = xs @ replicate (31 - n) (0 :: byte) @ [x]"
proof -
  assume n: "n \<le> 31" and len: "length xs = n"
  have "32 - n = Suc (31 - n)" using n by simp
  then have "replicate (32 - n) (0 :: byte) = replicate (31 - n) 0 @ [0]"
    by (simp only: replicate_Suc replicate_append_same)
  then have "(xs @ replicate (32 - n) 0)[31 := x] = (xs @ replicate (31 - n) 0 @ [0])[31 := x]"
    by simp
  also have "\<dots> = ((xs @ replicate (31 - n) 0) @ [0])[31 := x]" by simp
  also have "\<dots> = (xs @ replicate (31 - n) 0) @ [x]"
    using n len by (subst list_update_append) simp
  finally show ?thesis by simp
qed

lemma wf_base:
  "wfStorage m \<Longrightarrow> wfStorage (m(k \<mapsto> zeroHash[31 := x]))"
  by (rule wfStorage_upd) simp_all

lemma long_bytes:
  assumes "32 \<le> length data'" "length data' < 2 ^ 63" "wfStorage m" "i < length data'"
  shows "mapGet (setBytesToStorage K m base data') (slotKey (K base) (i div 32)) ! (i mod 32)
           = data' ! i"
proof -
  have k: "i div 32 < 2 ^ 63" using assms(2,4) by (simp add: div_less_iff_less_mult)
  have "32 * (i div 32) + i mod 32 = i" by simp
  then show ?thesis
    using loop_bytes [OF wf_base [OF assms(3)] k, of "i mod 32" "length data'" "K base" data'
        "BytesToHash base" "of_nat (2 * length data' + 1)"] assms
    by (simp add: setBytesToStorage_long)
qed

lemma long_dom:
  assumes "32 \<le> length data'" "i < length data'"
  shows "setBytesToStorage K m base data' (slotKey (K base) (i div 32)) \<noteq> None"
proof -
  have "i div 32 * 32 \<le> i" by simp
  with assms(2) have "i div 32 * 32 < length data'" by simp
  then show ?thesis using assms(1) by (simp add: setBytesToStorage_long loop_dom)
qed

lemma long_wf:
  "32 \<le> length data' \<Longrightarrow> wfStorage m \<Longrightarrow> wfStorage (setBytesToStorage K m base data')"
  by (simp add: setBytesToStorage_long loop_wf wf_base)

lemma long_tail:
  assumes "32 \<le> length data'" "length data' < 2 ^ 63" "wfStorage m" "p < 32" "k < 2 ^ 63"
    "length data' \<le> 32 * k + p" "slotKey (K base) k \<noteq> BytesToHash base"
  shows "mapGet (setBytesToStorage K m base data') (slotKey (K base) k) ! p
           = mapGet m (slotKey (K base) k) ! p"
  using loop_bytes [OF wf_base [OF assms(3)] assms(5,4), of "length data'" "K base" data'
        "BytesToHash base" "of_nat (2 * length data' + 1)"] assms
  by (simp add: setBytesToStorage_long)

lemma long_decode:
  assumes "32 \<le> length data'" "length data' < 2 ^ 63" "wfStorage m"
  shows "decodeBytes (setBytesToStorage K m base data') (K base) (length data') = data'"
proof -
  have "decodeBytes (setBytesToStorage K m base data') (K base) (length data') =
      map (\<lambda>i. data' ! i) [0..<length data']"
    unfolding decodeBytes_def
    by (rule map_cong) (simp_all add: long_bytes [OF assms])
  then show ?thesis by (simp add: map_nth)
qed

section \<open>Lemmas: the scalar slots and the staked amount\<close>

lemma DefaultStakedBalance_parses:
  "ParseUint256orHex DefaultStakedBalance = Inr 0x8AC7230489E80000"
  by (simp add: ParseUint256orHex_def DefaultStakedBalance_def HasPrefix_def big_SetString_def
      digitVal_def fromHexChar_def)

lemma natBytes_0 [simp]: "natBytes 0 = []"
  by (simp add: natBytes.simps)

lemma natBytes_byte: "0 < n \<Longrightarrow> n < 256 \<Longrightarrow> natBytes n = [of_nat n]"
  by (subst natBytes.simps) simp

lemma big_Bytes_0: "big_Bytes 0 = []"
  by (simp add: big_Bytes_def)

lemma BytesToHash_Nil: "BytesToHash [] = replicate 32 0"
  by (simp add: BytesToHash_def HashLength_def)

lemma BytesToHash_single: "BytesToHash [b] = replicate 31 0 @ [b]"
  by (simp add: BytesToHash_def HashLength_def)

lemma slot_keys:
  "BytesToHash (big_Bytes (big_NewInt validatorsSlot)) = replicate 32 0"
  "BytesToHash (big_Bytes (big_NewInt stakedAmountSlot)) = replicate 31 0 @ [4]"
  "BytesToHash (big_Bytes (big_NewInt minNumValidatorSlot)) = replicate 31 0 @ [5]"
  "BytesToHash (big_Bytes (big_NewInt maxNumValidatorSlot)) = replicate 31 0 @ [6]"
  by (simp_all add: big_Bytes_def big_NewInt_def validatorsSlot_def stakedAmountSlot_def
      minNumValidatorSlot_def maxNumValidatorSlot_def natBytes_byte BytesToHash_Nil
      BytesToHash_single)

lemma snd_predeployValidator:
  "snd (predeployValidator K bal vs idx st) = snd st + bal"
  by (simp add: predeployValidator_def Let_def)

lemma staked_loop:
  "snd (fold (predeployValidator K bal vs) [0..<n] st) = snd st + int n * bal"
  by (induction n) (simp_all add: snd_predeployValidator algebra_simps)

lemma PredeployStakingSC_Some:
  "PredeployStakingSC K scHex (Some vs) params =
     (let st = fold (predeployValidator K 0x8AC7230489E80000 vs) [0..<length vs] (Map.empty, 0)
      in Inr \<lparr> Code = scHex,
               Storage = (fst st)
                 (replicate 31 0 @ [4] \<mapsto> BytesToHash (big_Bytes (snd st)),
                  replicate 32 0 \<mapsto> BytesToHash (big_Bytes (big_NewInt (of_nat (length vs)))),
                  replicate 31 0 @ [5] \<mapsto>
                    BytesToHash (big_Bytes (big_NewInt (MinValidatorCount params))),
                  replicate 31 0 @ [6] \<mapsto>
                    BytesToHash (big_Bytes (big_NewInt (MaxValidatorCount params)))),
               Balance = snd st \<rparr>)"
  by (simp add: PredeployStakingSC_def DefaultStakedBalance_parses slot_keys Let_def
      case_prod_beta)

lemma PredeployStakingSC_None:
  "PredeployStakingSC K scHex None params =
     Inr \<lparr> Code = scHex,
           Storage =
             [replicate 31 0 @ [4] \<mapsto> replicate 32 0,
              replicate 32 0 \<mapsto> replicate 32 0,
              replicate 31 0 @ [5] \<mapsto>
                BytesToHash (big_Bytes (big_NewInt (MinValidatorCount params))),
              replicate 31 0 @ [6] \<mapsto>
                BytesToHash (big_Bytes (big_NewInt (MaxValidatorCount params)))],
           Balance = 0 \<rparr>"
  by (simp add: PredeployStakingSC_def DefaultStakedBalance_parses slot_keys big_Bytes_0
      BytesToHash_Nil)

lemma PredeployStakingSC_Inr:
  "\<exists>acct. PredeployStakingSC K scHex vals params = Inr acct"
  by (cases vals) (simp_all add: PredeployStakingSC_None PredeployStakingSC_Some Let_def)

lemma scalar_keys_distinct:
  "replicate 31 0 @ [4 :: byte] \<noteq> replicate 32 0"
  "replicate 31 0 @ [5 :: byte] \<noteq> replicate 32 0"
  "replicate 31 0 @ [6 :: byte] \<noteq> replicate 32 0"
  "replicate 31 0 @ [4 :: byte] \<noteq> replicate 31 0 @ [5]"
  "replicate 31 0 @ [4 :: byte] \<noteq> replicate 31 0 @ [6]"
  "replicate 31 0 @ [5 :: byte] \<noteq> replicate 31 0 @ [6]"
  by (simp_all add: replicate_numeral)

section \<open>Lemmas: hexadecimal text\<close>

lemma fromHexChar_hexDigit: "d < 16 \<Longrightarrow> fromHexChar (hexDigit d) = Some d"
  by (auto simp: fromHexChar_def hexDigit_def Let_def)

lemma hexText_digits:
  "\<exists>ds. hexText n = map hexDigit ds \<and> ds \<noteq> [] \<and> (\<forall>d\<in>set ds. d < 16)
        \<and> foldl (\<lambda>a d. a * 16 + d) 0 ds = n"
proof (induction n rule: hexText.induct)
  case (1 n)
  show ?case
  proof (cases "n < 16")
    case True
    then have "hexText n = map hexDigit [n]" by (simp add: hexText.simps)
    with True show ?thesis by (intro exI [of _ "[n]"]) simp
  next
    case False
    with 1 obtain ds where ds: "hexText (n div 16) = map hexDigit ds" "ds \<noteq> []"
      "\<forall>d\<in>set ds. d < 16" "foldl (\<lambda>a d. a * 16 + d) 0 ds = n div 16"
      by auto
    have "hexText n = map hexDigit (ds @ [n mod 16])"
      using False ds(1) by (simp add: hexText.simps [of n])
    moreover have "foldl (\<lambda>a d. a * 16 + d) 0 (ds @ [n mod 16]) = n"
      using ds(4) by simp
    ultimately show ?thesis using ds(3) by (intro exI [of _ "ds @ [n mod 16]"]) auto
  qed
qed

lemma hexDecodeString_digits:
  "even (length ds) \<Longrightarrow> \<forall>d\<in>set ds. d < 16 \<Longrightarrow>
   foldl (\<lambda>a b. a * 256 + unat b) acc (fst (hexDecodeString (map hexDigit ds)))
     = foldl (\<lambda>a d. a * 16 + d) acc ds"
proof (induction ds arbitrary: acc rule: induct_list012)
  case 1
  then show ?case by simp
next
  case (2 x)
  then show ?case by simp
next
  case (3 x y zs)
  have x: "x < 16" and y: "y < 16" using 3(4) by simp_all
  then have xy: "16 * x + y < 256" by simp
  have IH: "foldl (\<lambda>a b. a * 256 + unat b) acc' (fst (hexDecodeString (map hexDigit zs)))
      = foldl (\<lambda>a d. a * 16 + d) acc' zs" for acc'
    using 3(1) [of acc'] 3(3,4) by simp
  have "fst (hexDecodeString (map hexDigit (x # y # zs)))
      = of_nat (16 * x + y) # fst (hexDecodeString (map hexDigit zs))"
    using x y by (simp add: fromHexChar_hexDigit case_prod_beta del: of_nat_add of_nat_mult)
  then have "foldl (\<lambda>a b. a * 256 + unat b) acc (fst (hexDecodeString (map hexDigit (x # y # zs))))
      = foldl (\<lambda>a b. a * 256 + unat b) (acc * 256 + unat (of_nat (16 * x + y) :: byte))
          (fst (hexDecodeString (map hexDigit zs)))"
    by (simp del: of_nat_add of_nat_mult)
  also have "\<dots> = foldl (\<lambda>a d. a * 16 + d) (acc * 256 + (16 * x + y)) zs"
    by (simp only: unat_of_nat_byte [OF xy] IH)
  also have "acc * 256 + (16 * x + y) = (acc * 16 + x) * 16 + y" by simp
  finally show ?case by simp
qed

lemma TrimPrefix_0x: "TrimPrefix (''0x'' @ s) ''0x'' = s"
  by (simp add: TrimPrefix_def HasPrefix_def)

lemma hexDigit_0: "''0'' = [hexDigit 0]"
proof -
  have "of_char (CHR ''0'') = (48 :: nat)" by simp
  then have "CHR ''0'' = char_of (48 :: nat)" by (metis char_of_char)
  then show ?thesis by (simp add: hexDigit_def)
qed

lemma StringToBytes_hexText: "bytesToNat (StringToBytes (''0x'' @ hexText n)) = n"
proof -
  obtain ds where ds: "hexText n = map hexDigit ds" "\<forall>d\<in>set ds. d < 16"
    "foldl (\<lambda>a d. a * 16 + d) 0 ds = n"
    using hexText_digits [of n] by auto
  show ?thesis
  proof (cases "even (length ds)")
    case True
    then have "StringToBytes (''0x'' @ hexText n) = fst (hexDecodeString (map hexDigit ds))"
      unfolding StringToBytes_def TrimPrefix_0x by (simp add: ds(1) Let_def)
    then show ?thesis
      using hexDecodeString_digits [OF True ds(2), of 0] ds(3) by (simp add: bytesToNat_def)
  next
    case False
    then have "StringToBytes (''0x'' @ hexText n)
        = fst (hexDecodeString (map hexDigit (0 # ds)))"
      unfolding StringToBytes_def TrimPrefix_0x
      by (simp add: ds(1) Let_def hexDigit_0 odd_iff_mod_2_eq_one del: hexDecodeString.simps)
    moreover have "even (length (0 # ds))" using False by simp
    moreover have "\<forall>d\<in>set (0 # ds). d < 16" using ds(2) by simp
    ultimately show ?thesis
      using hexDecodeString_digits [of "0 # ds" 0] ds(3) by (simp add: bytesToNat_def)
  qed
qed

lemma StringToHash_EncodeUint64:
  "bytesToNat (StringToHash (EncodeUint64 w)) = unat w"
proof -
  have "unat w < 2 ^ 64" using unsigned_less [of w, where 'a = nat] by simp
  then have "unat w < 2 ^ 256" by (rule less_trans) simp
  then show ?thesis
    by (simp add: StringToHash_def EncodeUint64_def bytesToNat_BytesToHash
        StringToBytes_hexText [simplified])
qed

lemma StringToHash_EncodeBig:
  "0 < b \<Longrightarrow> b < 2 ^ 256 \<Longrightarrow> bytesToNat (StringToHash (EncodeBig b)) = nat b"
proof -
  assume b: "0 < b" "b < 2 ^ 256"
  then have "nat b < 2 ^ 256" by (simp add: nat_less_iff)
  then show ?thesis
    using b by (simp add: StringToHash_def EncodeBig_def bytesToNat_BytesToHash
        StringToBytes_hexText [simplified])
qed

section \<open>Lemmas: the keys a packed byte string touches\<close>

lemma base_in_bytesKeys: "BytesToHash base \<in> set (bytesKeys K base d)"
  by (simp add: bytesKeys_def)

lemma slot_in_bytesKeys:
  assumes "32 \<le> length d" "k * 32 < length d"
  shows "slotKey (K base) k \<in> set (bytesKeys K base d)"
proof -
  have "k < (length d + 31) div 32" using assms(2) by arith
  with assms(1) show ?thesis by (simp add: bytesKeys_def)
qed

lemma setBytes_frame:
  assumes "key \<notin> set (bytesKeys K base d)"
  shows "setBytesToStorage K m base d key = m key"
proof (cases "length d \<le> 31")
  case True
  from assms have "key \<noteq> BytesToHash base" by (simp add: bytesKeys_def)
  with True show ?thesis by (simp add: setBytesToStorage_def Let_def)
next
  case False
  then have long: "32 \<le> length d" by simp
  from assms have ne: "key \<noteq> BytesToHash base" by (simp add: bytesKeys_def)
  have "fold (setBytesStep (K base) d) [0..<length d]
          (m(BytesToHash base \<mapsto> zeroHash[31 := of_nat (2 * length d + 1)])) key
        = (m(BytesToHash base \<mapsto> zeroHash[31 := of_nat (2 * length d + 1)])) key"
  proof (rule loop_frame)
    fix k assume "k * 32 < length d"
    then have "slotKey (K base) k \<in> set (bytesKeys K base d)"
      using long by (intro slot_in_bytesKeys)
    with assms show "key \<noteq> slotKey (K base) k" by auto
  qed
  with ne show ?thesis by (simp add: setBytesToStorage_long [OF long])
qed

lemma loop_cong:
  assumes "\<forall>key\<in>S. m0 key = m0' key"
  shows "(\<forall>j<n. slotKey z (j div 32) \<in> S) \<Longrightarrow>
    \<forall>key\<in>S. fold (setBytesStep z d) [0..<n] m0 key = fold (setBytesStep z d) [0..<n] m0' key"
proof (induction n)
  case 0
  with assms show ?case by simp
next
  case (Suc n)
  let ?L = "fold (setBytesStep z d) [0..<n] m0"
  let ?L' = "fold (setBytesStep z d) [0..<n] m0'"
  have IH: "\<forall>key\<in>S. ?L key = ?L' key" using Suc by simp
  have ks: "slotKey z (n div 32) \<in> S" using Suc.prems by simp
  with IH have g: "mapGet ?L (slotKey z (n div 32)) = mapGet ?L' (slotKey z (n div 32))"
    by (simp add: mapGet_def)
  show ?case
  proof
    fix key assume key: "key \<in> S"
    show "fold (setBytesStep z d) [0..<Suc n] m0 key = fold (setBytesStep z d) [0..<Suc n] m0' key"
    proof (cases "key = slotKey z (n div 32)")
      case True
      then show ?thesis by (simp only: loop_Suc_same g)
    next
      case False
      then show ?thesis using IH key by (simp only: loop_Suc_other [OF False])
    qed
  qed
qed

lemma setBytes_cong:
  assumes "\<forall>key\<in>set (bytesKeys K base d). m key = m' key"
    and "key \<in> set (bytesKeys K base d)"
  shows "setBytesToStorage K m base d key = setBytesToStorage K m' base d key"
proof (cases "length d \<le> 31")
  case True
  with assms(2) have "key = BytesToHash base" by (simp add: bytesKeys_def)
  with True show ?thesis by (simp add: setBytesToStorage_def Let_def)
next
  case False
  then have long: "32 \<le> length d" by simp
  let ?b = "zeroHash[31 := of_nat (2 * length d + 1)]"
  have 0: "\<forall>key\<in>set (bytesKeys K base d).
      (m(BytesToHash base \<mapsto> ?b)) key = (m'(BytesToHash base \<mapsto> ?b)) key"
    using assms(1) by simp
  have 1: "\<forall>j<length d. slotKey (K base) (j div 32) \<in> set (bytesKeys K base d)"
  proof (intro allI impI)
    fix j assume "j < length d"
    moreover have "j div 32 * 32 \<le> j" by simp
    ultimately have "j div 32 * 32 < length d" by simp
    then show "slotKey (K base) (j div 32) \<in> set (bytesKeys K base d)"
      using long by (intro slot_in_bytesKeys)
  qed
  show ?thesis
    unfolding setBytesToStorage_long [OF long]
    by (rule loop_cong [OF 0 1, THEN bspec, OF assms(2)])
qed

lemma storageIndexes_fields:
  "ValidatorsIndex (getStorageIndexes K v idx) = getIndexWithOffset (K (replicate 32 0)) idx"
  "AddressToIsValidatorIndex (getStorageIndexes K v idx) = getAddressMapping K (Addr v) 1"
  "AddressToStakedAmountIndex (getStorageIndexes K v idx) = getAddressMapping K (Addr v) 2"
  "AddressToValidatorIndexIndex (getStorageIndexes K v idx) = getAddressMapping K (Addr v) 3"
  "ValidatorBLSPublicKeyIndex (getStorageIndexes K v idx) = getAddressMapping K (Addr v) 7"
  by (simp_all add: getStorageIndexes_def Let_def validatorsSlot_def addressToIsValidatorSlot_def
      addressToStakedAmountSlot_def addressToValidatorIndexSlot_def addressToBLSPublicKeySlot_def
      big_NewInt_def big_Bytes_0 PadLeftOrTrim_def)

section \<open>Lemmas: one iteration of the loop over the validators\<close>

lemma fst_predeployValidator:
  "fst (predeployValidator K bal vs idx st) =
    (let v = vs ! idx;
         m1 = (fst st)(BytesToHash (getIndexWithOffset (K (replicate 32 0)) (of_nat idx))
                  \<mapsto> BytesToHash (Addr v));
         m2 = (case v of
                 BLSValidator a pk \<Rightarrow> setBytesToStorage K m1 (getAddressMapping K (Addr v) 7) pk
               | ECDSAValidator a \<Rightarrow> m1)
     in m2(BytesToHash (getAddressMapping K (Addr v) 1) \<mapsto> BytesToHash (big_Bytes (big_NewInt 1)),
           BytesToHash (getAddressMapping K (Addr v) 2) \<mapsto> StringToHash (EncodeBig bal),
           BytesToHash (getAddressMapping K (Addr v) 3)
             \<mapsto> StringToHash (EncodeUint64 (of_nat idx))))"
  by (simp add: predeployValidator_def Let_def storageIndexes_fields split: Validator.split)

lemma validatorKeys_eq:
  "validatorKeys K v idx =
     [BytesToHash (getIndexWithOffset (K (replicate 32 0)) (of_nat idx)),
      BytesToHash (getAddressMapping K (Addr v) 1),
      BytesToHash (getAddressMapping K (Addr v) 2),
      BytesToHash (getAddressMapping K (Addr v) 3)]"
  by (simp add: validatorKeys_def Let_def storageIndexes_fields)

lemma writtenKeys_eq:
  "writtenKeys K v idx =
     validatorKeys K v idx @
     (case v of ECDSAValidator a \<Rightarrow> []
      | BLSValidator a pk \<Rightarrow> bytesKeys K (getAddressMapping K (Addr v) 7) pk)"
  by (simp add: writtenKeys_def storageIndexes_fields split: Validator.split)

lemma ownKeys_eq:
  "ownKeys K v idx =
     validatorKeys K v idx @
     bytesKeys K (getAddressMapping K (Addr v) 7)
       (case v of ECDSAValidator a \<Rightarrow> [] | BLSValidator a pk \<Rightarrow> pk)"
  by (simp add: ownKeys_def storageIndexes_fields)

lemma step_frame:
  assumes "key \<notin> set (writtenKeys K (vs ! idx) idx)"
  shows "fst (predeployValidator K bal vs idx st) key = fst st key"
proof (cases "vs ! idx")
  case (ECDSAValidator a)
  with assms show ?thesis
    by (simp add: fst_predeployValidator Let_def writtenKeys_eq validatorKeys_eq)
next
  case (BLSValidator a pk)
  with assms have "key \<notin> set (bytesKeys K (getAddressMapping K a 7) pk)"
    by (simp add: writtenKeys_eq)
  then have "setBytesToStorage K m (getAddressMapping K a 7) pk key = m key" for m
    by (rule setBytes_frame)
  with assms BLSValidator show ?thesis
    by (simp add: fst_predeployValidator Let_def writtenKeys_eq validatorKeys_eq)
qed

lemma vals_loop_frame:
  "(\<And>j. a \<le> j \<Longrightarrow> j < b \<Longrightarrow> key \<notin> set (writtenKeys K (vs ! j) j)) \<Longrightarrow>
   fst (fold (predeployValidator K bal vs) [a..<b] st) key = fst st key"
proof (induction b)
  case 0
  then show ?case by simp
next
  case (Suc b)
  show ?case
  proof (cases "a \<le> b")
    case True
    have "fst (fold (predeployValidator K bal vs) [a..<b] st) key = fst st key"
      using Suc.prems by (intro Suc.IH) auto
    moreover have "key \<notin> set (writtenKeys K (vs ! b) b)"
      using True by (intro Suc.prems) auto
    ultimately show ?thesis using True by (simp add: step_frame)
  next
    case False
    then show ?thesis by simp
  qed
qed

lemma step_own_ecdsa:
  assumes v: "vs ! idx = ECDSAValidator a"
    and d: "distinct (ownKeys K (vs ! idx) idx)"
    and e: "fst st (BytesToHash (getAddressMapping K a 7)) = None"
  shows "fst (predeployValidator K bal vs idx st)
           (BytesToHash (getIndexWithOffset (K (replicate 32 0)) (of_nat idx)))
           = Some (BytesToHash a)"
    and "fst (predeployValidator K bal vs idx st) (BytesToHash (getAddressMapping K a 1))
           = Some (BytesToHash (big_Bytes (big_NewInt 1)))"
    and "fst (predeployValidator K bal vs idx st) (BytesToHash (getAddressMapping K a 2))
           = Some (StringToHash (EncodeBig bal))"
    and "fst (predeployValidator K bal vs idx st) (BytesToHash (getAddressMapping K a 3))
           = Some (StringToHash (EncodeUint64 (of_nat idx)))"
    and "fst (predeployValidator K bal vs idx st) (BytesToHash (getAddressMapping K a 7)) = None"
  using d e
  by (auto simp: v fst_predeployValidator Let_def ownKeys_eq validatorKeys_eq bytesKeys_def)

lemma step_own_bls:
  assumes v: "vs ! idx = BLSValidator a pk"
    and d: "distinct (ownKeys K (vs ! idx) idx)"
    and e: "\<forall>key\<in>set (bytesKeys K (getAddressMapping K a 7) pk). fst st key = None"
  shows "fst (predeployValidator K bal vs idx st)
           (BytesToHash (getIndexWithOffset (K (replicate 32 0)) (of_nat idx)))
           = Some (BytesToHash a)"
    and "fst (predeployValidator K bal vs idx st) (BytesToHash (getAddressMapping K a 1))
           = Some (BytesToHash (big_Bytes (big_NewInt 1)))"
    and "fst (predeployValidator K bal vs idx st) (BytesToHash (getAddressMapping K a 2))
           = Some (StringToHash (EncodeBig bal))"
    and "fst (predeployValidator K bal vs idx st) (BytesToHash (getAddressMapping K a 3))
           = Some (StringToHash (EncodeUint64 (of_nat idx)))"
    and "\<forall>key\<in>set (bytesKeys K (getAddressMapping K a 7) pk).
           fst (predeployValidator K bal vs idx st) key
             = setBytesToStorage K Map.empty (getAddressMapping K a 7) pk key"
proof -
  let ?aK = "BytesToHash (getIndexWithOffset (K (replicate 32 0)) (of_nat idx))"
  let ?k1 = "BytesToHash (getAddressMapping K a 1)"
  let ?k2 = "BytesToHash (getAddressMapping K a 2)"
  let ?k3 = "BytesToHash (getAddressMapping K a 3)"
  let ?B = "set (bytesKeys K (getAddressMapping K a 7) pk)"
  let ?m1 = "(fst st)(?aK \<mapsto> BytesToHash a)"
  let ?m2 = "setBytesToStorage K ?m1 (getAddressMapping K a 7) pk"
  from d have dist: "distinct [?aK, ?k1, ?k2, ?k3]" and
    nb: "?aK \<notin> ?B" "?k1 \<notin> ?B" "?k2 \<notin> ?B" "?k3 \<notin> ?B"
    by (auto simp: v ownKeys_eq validatorKeys_eq)
  have m: "fst (predeployValidator K bal vs idx st) =
      ?m2(?k1 \<mapsto> BytesToHash (big_Bytes (big_NewInt 1)),
          ?k2 \<mapsto> StringToHash (EncodeBig bal),
          ?k3 \<mapsto> StringToHash (EncodeUint64 (of_nat idx)))"
    by (simp add: fst_predeployValidator v Let_def)
  have "?m2 ?aK = ?m1 ?aK" using nb(1) by (rule setBytes_frame)
  then show "fst (predeployValidator K bal vs idx st) ?aK = Some (BytesToHash a)"
    unfolding m using dist by simp
  show "fst (predeployValidator K bal vs idx st) ?k1 = Some (BytesToHash (big_Bytes (big_NewInt 1)))"
    unfolding m using dist by simp
  show "fst (predeployValidator K bal vs idx st) ?k2 = Some (StringToHash (EncodeBig bal))"
    unfolding m using dist by simp
  show "fst (predeployValidator K bal vs idx st) ?k3
      = Some (StringToHash (EncodeUint64 (of_nat idx)))"
    unfolding m by simp
  show "\<forall>key\<in>?B. fst (predeployValidator K bal vs idx st) key
             = setBytesToStorage K Map.empty (getAddressMapping K a 7) pk key"
  proof
    fix key assume key: "key \<in> ?B"
    have agree: "\<forall>key\<in>?B. ?m1 key = Map.empty key" using e nb(1) by auto
    have "fst (predeployValidator K bal vs idx st) key = ?m2 key"
      unfolding m using key nb by auto
    also have "\<dots> = setBytesToStorage K Map.empty (getAddressMapping K a 7) pk key"
      using agree key by (rule setBytes_cong)
    finally show "fst (predeployValidator K bal vs idx st) key
             = setBytesToStorage K Map.empty (getAddressMapping K a 7) pk key" .
  qed
qed

section \<open>Lemmas: the keys of the example run\<close>

lemma upt_0_2: "[0..<2] = [0, 1]"
  by (simp add: numeral_2_eq_2)

lemmas eval_defs = ownKeys_eq writtenKeys_eq validatorKeys_eq bytesKeys_def slotKey_def
  getAddressMapping_def getIndexWithOffset_def toyKeccak_def PadLeftOrTrim_def BytesToHash_def
  HashLength_def big_NewInt_def big_Bytes_def big_SetBytes_def bytesToNat_def natBytes.simps
  replicate_numeral exampleValidators_def upt_0_2

lemma example_ownKeys_0:
  "ownKeys toyKeccak (exampleValidators ! 0) 0 =
    [0xFF # replicate 31 0,
     0xFF # replicate 20 0x11 @ replicate 10 0 @ [1],
     0xFF # replicate 20 0x11 @ replicate 10 0 @ [2],
     0xFF # replicate 20 0x11 @ replicate 10 0 @ [3],
     0xFF # replicate 20 0x11 @ replicate 10 0 @ [7],
     0xFF # replicate 9 0x11 @ replicate 10 0 @ [7] @ replicate 10 0 @ [7],
     0xFF # replicate 9 0x11 @ replicate 10 0 @ [7] @ replicate 10 0 @ [8]]"
  by (simp add: eval_defs)

lemma example_ownKeys_1:
  "ownKeys toyKeccak (exampleValidators ! 1) 1 =
    [0xFF # replicate 30 0 @ [1],
     0xFF # replicate 20 0x33 @ replicate 10 0 @ [1],
     0xFF # replicate 20 0x33 @ replicate 10 0 @ [2],
     0xFF # replicate 20 0x33 @ replicate 10 0 @ [3],
     0xFF # replicate 20 0x33 @ replicate 10 0 @ [7]]"
  by (simp add: eval_defs)

lemma example_writtenKeys_0:
  "writtenKeys toyKeccak (exampleValidators ! 0) 0 = ownKeys toyKeccak (exampleValidators ! 0) 0"
  by (simp add: ownKeys_eq writtenKeys_eq exampleValidators_def)

lemma example_writtenKeys_1:
  "writtenKeys toyKeccak (exampleValidators ! 1) 1 =
    [0xFF # replicate 30 0 @ [1],
     0xFF # replicate 20 0x33 @ replicate 10 0 @ [1],
     0xFF # replicate 20 0x33 @ replicate 10 0 @ [2],
     0xFF # replicate 20 0x33 @ replicate 10 0 @ [3]]"
  by (simp add: eval_defs)

section \<open>Key derivation\<close>


section \<open>Adding an offset to a hash\<close>

text \<open>
  C5 as stated fails at an offset of \<open>2^63\<close> or more. The code converts the \<open>uint64\<close>
  offset with \<open>int64(offset)\<close>, so the offset \<open>2^64 - 1\<close> is added as \<open>-1\<close>: for the
  hash of 32 bytes \<open>0x11\<close> the result is the hash minus one, not the hash plus
  \<open>2^64 - 1\<close>.
\<close>

theorem getIndexWithOffset_high_offset:
  "getIndexWithOffset (replicate 32 0x11) 0xFFFFFFFFFFFFFFFF = replicate 31 0x11 @ [0x10]
   \<and> bytesToNat (getIndexWithOffset (replicate 32 0x11) 0xFFFFFFFFFFFFFFFF) + 1
       = bytesToNat (replicate 32 0x11)
   \<and> bytesToNat (getIndexWithOffset (replicate 32 0x11) 0xFFFFFFFFFFFFFFFF)
       \<noteq> bytesToNat (replicate 32 0x11) + unat (0xFFFFFFFFFFFFFFFF :: 64 word)"
  by (simp add: getIndexWithOffset_def big_Bytes_def big_SetBytes_def big_NewInt_def
      bytesToNat_def replicate_numeral natBytes.simps)

text \<open>
  C5, amended. For every hash \<open>H\<close> and every offset \<open>n\<close> below \<open>2^63\<close> (the callers
  pass a loop index or \<open>i / 32\<close>, both non-negative values of an \<open>int\<close>), the result
  read as an unsigned big-endian integer is the value of \<open>H\<close> plus \<open>n\<close>, a sum of
  natural numbers with no bound: the result is the shortest byte string of that sum,
  33 bytes long when the sum has a carry out of 32 bytes.
\<close>

theorem getIndexWithOffset_adds:
  assumes "unat n < 2 ^ 63"
  shows "bytesToNat (getIndexWithOffset H n) = bytesToNat H + unat n
       \<and> getIndexWithOffset H n = natBytes (bytesToNat H + unat n)"
proof -
  have "sint (of_nat (unat n) :: 64 word) = int (unat n)"
    using assms by (rule sint_of_nat_64)
  then have s: "sint n = int (unat n)" by simp
  have "getIndexWithOffset H n = natBytes (nat \<bar>int (bytesToNat H) + int (unat n)\<bar>)"
    by (simp add: getIndexWithOffset_def big_Bytes_def big_SetBytes_def big_NewInt_def s)
  also have "nat \<bar>int (bytesToNat H) + int (unat n)\<bar> = bytesToNat H + unat n"
    by (simp add: nat_add_distrib)
  finally have r: "getIndexWithOffset H n = natBytes (bytesToNat H + unat n)" .
  then show ?thesis by simp
qed

theorem getIndexWithOffset_adds_witness:
  "unat (1 :: 64 word) < 2 ^ 63
   \<and> bytesToNat (getIndexWithOffset (replicate 32 0xFF) 1) = bytesToNat (replicate 32 0xFF) + 1
   \<and> bytesToNat (replicate 32 0xFF) + 1 = 2 ^ 256
   \<and> getIndexWithOffset (replicate 32 0xFF) 1 = 1 # replicate 32 0"
proof -
  have h: "unat (1 :: 64 word) < 2 ^ 63" by simp
  have v: "bytesToNat (replicate 32 0xFF) + 1 = 2 ^ 256"
    by (simp add: bytesToNat_def replicate_numeral)
  have "natBytes (2 ^ 256) = 1 # replicate 32 0"
    by (simp add: natBytes.simps replicate_numeral)
  with v have b: "natBytes (bytesToNat (replicate 32 0xFF) + 1) = 1 # replicate 32 0"
    by (simp only:)
  have u: "unat (1 :: 64 word) = 1" by simp
  note t = getIndexWithOffset_adds [OF h, of "replicate 32 0xFF", unfolded u]
  from t have a: "bytesToNat (getIndexWithOffset (replicate 32 0xFF) 1)
      = bytesToNat (replicate 32 0xFF) + 1" by (rule conjunct1)
  from t have "getIndexWithOffset (replicate 32 0xFF) 1
      = natBytes (bytesToNat (replicate 32 0xFF) + 1)" by (rule conjunct2)
  then have c: "getIndexWithOffset (replicate 32 0xFF) 1 = 1 # replicate 32 0"
    by (simp only: b)
  from h a v c show ?thesis by (intro conjI)
qed

text \<open>
  C6 as stated fails: for the hash of 32 zero bytes and the offset 0 the result is the
  empty byte string, not the hash.
\<close>

theorem getIndexWithOffset_zero_hash:
  "getIndexWithOffset (replicate 32 0) 0 \<noteq> replicate 32 0"
proof -
  have "getIndexWithOffset (replicate 32 0) 0 = natBytes (bytesToNat (replicate 32 0))"
    by (simp add: getIndexWithOffset_def big_Bytes_def big_SetBytes_def big_NewInt_def)
  also have "\<dots> = []" by (simp add: natBytes.simps)
  finally show ?thesis by simp
qed

text \<open>
  C6, amended. For every 32-byte hash \<open>H\<close>, \<open>getIndexWithOffset H 0\<close> is \<open>H\<close> without
  its leading zero bytes: it has the unsigned value of \<open>H\<close>, and it is \<open>H\<close> itself
  exactly when the first byte of \<open>H\<close> is not zero. For every offset \<open>n\<close> with
  \<open>0 < n < 2^63\<close>, the unsigned value of \<open>getIndexWithOffset H n\<close> is that of
  \<open>getIndexWithOffset H (n - 1)\<close> plus one.
\<close>

theorem getIndexWithOffset_successor:
  assumes "length H = 32"
  shows "getIndexWithOffset H 0 = dropWhile (\<lambda>b. b = 0) H
       \<and> bytesToNat (getIndexWithOffset H 0) = bytesToNat H
       \<and> ((getIndexWithOffset H 0 = H) = (hd H \<noteq> 0))
       \<and> (0 < n \<and> unat n < 2 ^ 63 \<longrightarrow>
            bytesToNat (getIndexWithOffset H n)
              = bytesToNat (getIndexWithOffset H (n - 1)) + 1)"
proof (intro conjI impI)
  show z: "getIndexWithOffset H 0 = dropWhile (\<lambda>b. b = 0) H"
    by (simp add: getIndexWithOffset_def big_Bytes_def big_SetBytes_def big_NewInt_def
        natBytes_bytesToNat)
  show "bytesToNat (getIndexWithOffset H 0) = bytesToNat H"
    by (simp add: getIndexWithOffset_nat)
  from assms obtain b bs where H: "H = b # bs" by (cases H) auto
  show "(getIndexWithOffset H 0 = H) = (hd H \<noteq> 0)"
  proof (cases "b = 0")
    case True
    have "length (dropWhile (\<lambda>b. b = 0) bs) \<le> length bs" by (rule length_dropWhile_le)
    then have "dropWhile (\<lambda>b. b = 0) bs \<noteq> b # bs" by auto
    with True show ?thesis unfolding z by (simp add: H)
  next
    case False
    then show ?thesis unfolding z by (simp add: H)
  qed
next
  assume n: "0 < n \<and> unat n < 2 ^ 63"
  then have pos: "0 < unat n" by (simp add: word_greater_zero_iff unat_gt_0)
  from n have "unat n < 2 ^ 63" by simp
  then have lt: "unat n - 1 < 2 ^ 63" by (rule le_less_trans [rotated]) simp
  have "n - 1 = of_nat (unat n - 1)" using pos by simp
  then have "bytesToNat (getIndexWithOffset H (n - 1)) = bytesToNat H + (unat n - 1)"
    using getIndexWithOffset_of_nat [OF lt, of H] by simp
  moreover have "bytesToNat (getIndexWithOffset H n) = bytesToNat H + unat n"
    using getIndexWithOffset_of_nat [of "unat n" H] n by simp
  ultimately show "bytesToNat (getIndexWithOffset H n)
      = bytesToNat (getIndexWithOffset H (n - 1)) + 1"
    using pos by simp
qed

theorem getIndexWithOffset_successor_witness:
  "length (0 # replicate 31 (0x22 :: byte)) = 32
   \<and> getIndexWithOffset (0 # replicate 31 0x22) 0 = replicate 31 0x22
   \<and> (0 :: 64 word) < 3 \<and> unat (3 :: 64 word) < 2 ^ 63
   \<and> bytesToNat (getIndexWithOffset (0 # replicate 31 0x22) 3)
       = bytesToNat (getIndexWithOffset (0 # replicate 31 0x22) 2) + 1"
  using getIndexWithOffset_successor [of "0 # replicate 31 0x22" 3] by simp

section \<open>Packing a byte string\<close>

text \<open>
  C4. For every payload of at most 31 bytes, \<open>setBytesToStorage\<close> changes the map at
  the base key only, where it stores the payload, then zero bytes up to byte 30, then
  one byte with the value \<open>length * 2\<close>.
\<close>

theorem setBytesToStorage_short:
  assumes "length data' \<le> 31"
  shows "setBytesToStorage K m base data' =
           m(BytesToHash base \<mapsto>
               data' @ replicate (31 - length data') 0 @ [of_nat (length data' * 2)])
         \<and> unat (of_nat (length data' * 2) :: byte) = length data' * 2"
proof
  show "setBytesToStorage K m base data' =
      m(BytesToHash base \<mapsto> data' @ replicate (31 - length data') 0 @ [of_nat (length data' * 2)])"
    using assms by (simp add: setBytesToStorage_def Let_def HashLength_def short_slot)
  have "length data' * 2 < 256" using assms by simp
  then show "unat (of_nat (length data' * 2) :: byte) = length data' * 2"
    by (rule unat_of_nat_byte)
qed

theorem setBytesToStorage_short_witness:
  "length [1, 2, 3 :: byte] \<le> 31
   \<and> setBytesToStorage toyKeccak Map.empty [7] [1, 2, 3]
       = [BytesToHash [7] \<mapsto> [1, 2, 3] @ replicate 28 0 @ [6]]"
  using setBytesToStorage_short [of "[1, 2, 3]" toyKeccak Map.empty "[7]"] by simp

lemma zeroHash_upd_31: "zeroHash[31 := x] = replicate 31 0 @ [x]"
proof -
  have "zeroHash = replicate 31 0 @ [0 :: byte]"
    by (simp add: zeroHash_def HashLength_def replicate_append_same)
      (simp add: numeral_eq_Suc)
  then have "zeroHash[31 := x] = (replicate 31 0 @ [0 :: byte])[31 := x]" by simp
  also have "\<dots> = replicate 31 0 @ [x]" by (subst list_update_append) simp
  finally show ?thesis .
qed

lemma bytesToNat_baseSlot: "bytesToNat (zeroHash[31 := x]) = unat x"
  by (simp add: zeroHash_upd_31)

text \<open>
  For a payload of 32 to 127 bytes the slot at the base key holds \<open>2 * length + 1\<close>,
  if no data slot falls on the base key.
\<close>

lemma setBytesToStorage_length_slot:
  assumes "32 \<le> length data'" "length data' \<le> 127"
    and "\<forall>k. k * 32 < length data' \<longrightarrow> BytesToHash base \<noteq> slotKey (K base) k"
  shows "\<exists>v. setBytesToStorage K m base data' (BytesToHash base) = Some v
           \<and> length v = 32 \<and> bytesToNat v = 2 * length data' + 1"
proof -
  let ?b = "zeroHash[31 := of_nat (2 * length data' + 1)]"
  have "fold (setBytesStep (K base) data') [0..<length data'] (m(BytesToHash base \<mapsto> ?b))
          (BytesToHash base) = (m(BytesToHash base \<mapsto> ?b)) (BytesToHash base)"
    using assms(3) by (intro loop_frame) auto
  then have "setBytesToStorage K m base data' (BytesToHash base) = Some ?b"
    by (simp add: setBytesToStorage_long [OF assms(1)])
  moreover have "2 * length data' + 1 < 256" using assms(2) by simp
  then have "unat (of_nat (2 * length data' + 1) :: byte) = 2 * length data' + 1"
    by (rule unat_of_nat_byte)
  then have "bytesToNat ?b = 2 * length data' + 1" by (simp only: bytesToNat_baseSlot)
  ultimately show ?thesis by simp
qed

text \<open>
  C2, at a payload of 128 bytes. The code stores \<open>byte(2*dataLen + 1)\<close> in the last byte
  of the slot at the base key and nothing in the 31 bytes before it, so the stored
  number is \<open>2 * length + 1\<close> only modulo 256. For 128 zero bytes the slot at the base
  key holds a number that is at most 1 (1, or 0 if a data slot falls on the base key),
  not 257, whatever the hash function.
\<close>

theorem setBytesToStorage_length_truncated:
  "bytesToNat (mapGet (setBytesToStorage K Map.empty base (replicate 128 0)) (BytesToHash base))
     \<le> 1"
proof -
  let ?d = "replicate 128 (0 :: byte)"
  let ?m0 = "Map.empty(BytesToHash base \<mapsto> zeroHash[31 := of_nat (2 * length ?d + 1)])"
  let ?L = "fold (setBytesStep (K base) ?d) [0..<length ?d] ?m0"
  have eq: "setBytesToStorage K Map.empty base ?d = ?L"
    by (rule setBytesToStorage_long) simp
  have wf0: "wfStorage ?m0" by (rule wf_base) simp
  show ?thesis
  proof (cases "\<exists>k. k * 32 < length ?d \<and> BytesToHash base = slotKey (K base) k")
    case True
    then obtain k where k: "k * 32 < 128" and bk: "BytesToHash base = slotKey (K base) k"
      by auto
    have k63: "k < 2 ^ 63" using k by simp
    have len: "length (mapGet ?L (slotKey (K base) k)) = 32"
      by (intro length_mapGet loop_wf wf0)
    have "mapGet ?L (slotKey (K base) k) ! p = replicate 32 0 ! p" if p: "p < 32" for p
    proof -
      have lt: "32 * k + p < 128" using k p by simp
      have "mapGet ?L (slotKey (K base) k) ! p = ?d ! (32 * k + p)"
        using loop_bytes [OF wf0 k63 p, of "length ?d" "K base" ?d] lt by simp
      also have "\<dots> = 0" using lt by simp
      finally show ?thesis using p by simp
    qed
    with len have "mapGet ?L (slotKey (K base) k) = replicate 32 0"
      by (intro nth_equalityI) simp_all
    then show ?thesis unfolding eq bk by simp
  next
    case False
    then have "?L (BytesToHash base) = ?m0 (BytesToHash base)"
      by (intro loop_frame) auto
    then have "mapGet ?L (BytesToHash base) = zeroHash[31 := of_nat (2 * length ?d + 1)]"
      by (simp add: mapGet_def)
    then show ?thesis unfolding eq by (simp add: bytesToNat_baseSlot)
  qed
qed

text \<open>
  A map that already holds a value at the key of the last data slot keeps that value's
  bytes behind the payload. For a payload of 33 bytes \<open>0xAA\<close> and a map that holds 32
  bytes \<open>0xFF\<close> at the key of the second data slot, byte 31 of that slot is not zero
  after the call, whatever the hash function.
\<close>

lemma setBytesToStorage_stale_tail:
  "mapGet (setBytesToStorage K [slotKey (K [5]) 1 \<mapsto> replicate 32 0xFF] [5]
            (replicate 33 0xAA))
     (slotKey (K [5]) 1) ! 31 \<noteq> 0"
proof -
  let ?d = "replicate 33 (0xAA :: byte)"
  let ?m = "[slotKey (K [5]) 1 \<mapsto> replicate 32 (0xFF :: byte)]"
  let ?mb = "?m(BytesToHash [5] \<mapsto> zeroHash[31 := of_nat (2 * length ?d + 1)])"
  have eq: "setBytesToStorage K ?m [5] ?d = fold (setBytesStep (K [5]) ?d) [0..<length ?d] ?mb"
    by (rule setBytesToStorage_long) simp
  have wf0: "wfStorage ?mb" by (intro wf_base wfStorage_upd) simp_all
  have "mapGet (setBytesToStorage K ?m [5] ?d) (slotKey (K [5]) 1) ! 31
      = mapGet ?mb (slotKey (K [5]) 1) ! 31"
    unfolding eq using loop_bytes [OF wf0, of 1 31 "length ?d" "K [5]" ?d] by simp
  also have "\<dots> \<noteq> 0"
  proof (cases "slotKey (K [5]) 1 = BytesToHash [5]")
    case True
    then show ?thesis by (simp add: zeroHash_upd_31 nth_append)
  next
    case False
    then show ?thesis by simp
  qed
  finally show ?thesis .
qed

lemma example_slot_ne: "slotKey (toyKeccak [5]) 1 \<noteq> BytesToHash [5]"
  by (simp add: slotKey_def getIndexWithOffset_def big_SetBytes_def big_NewInt_def
      big_Bytes_def toyKeccak_def bytesToNat_def natBytes.simps BytesToHash_def
      HashLength_def replicate_numeral)

text \<open>
  C3 as stated fails on such a map. With \<open>toyKeccak\<close> for the hash function, the base
  key bytes \<open>[5]\<close>, a payload of 33 bytes \<open>0xAA\<close> and a map that holds 32 bytes \<open>0xFF\<close>
  at the key of the second data slot, byte 31 of the last data slot is \<open>0xFF\<close> after
  the call, not zero.
\<close>

theorem setBytesToStorage_tail_not_zero:
  "mapGet (setBytesToStorage toyKeccak [slotKey (toyKeccak [5]) 1 \<mapsto> replicate 32 0xFF] [5]
            (replicate 33 0xAA))
     (slotKey (toyKeccak [5]) 1) ! 31 = 0xFF
   \<and> mapGet (setBytesToStorage toyKeccak [slotKey (toyKeccak [5]) 1 \<mapsto> replicate 32 0xFF] [5]
            (replicate 33 0xAA))
     (slotKey (toyKeccak [5]) 1) ! 31 \<noteq> 0"
proof -
  let ?d = "replicate 33 (0xAA :: byte)"
  let ?m = "[slotKey (toyKeccak [5]) 1 \<mapsto> replicate 32 (0xFF :: byte)]"
  have "mapGet (setBytesToStorage toyKeccak ?m [5] ?d) (slotKey (toyKeccak [5]) 1) ! 31
      = mapGet ?m (slotKey (toyKeccak [5]) 1) ! 31"
    using example_slot_ne by (intro long_tail) (simp_all add: wfStorage_upd)
  also have "\<dots> = 0xFF" by simp
  finally show ?thesis by simp
qed

text \<open>
  C3, amended. For every payload of 32 bytes or more (less than \<open>2^63\<close>, the range of
  \<open>len\<close>) and every map of 32-byte values, after \<open>setBytesToStorage\<close>: every payload
  byte \<open>i\<close> is byte \<open>i mod 32\<close> of the slot stored at the key
  \<open>slotKey (K base) (i div 32)\<close>, the 32 bytes of the hash of the base key bytes plus
  \<open>i div 32\<close> (modulo \<open>2^256\<close>), so the bytes of one slot are all there together;
  every stored value has
  32 bytes; the bytes of the last data slot behind the payload are what the map held
  there before the call, zero when it held nothing at that key, provided the key is not
  the base key; and reading the slots back by the same rule gives the payload.
\<close>

theorem setBytesToStorage_long_layout:
  assumes "32 \<le> length data'" "length data' < 2 ^ 63" "wfStorage m"
  shows "let m' = setBytesToStorage K m base data';
             n = length data';
             lastKey = slotKey (K base) ((n - 1) div 32)
         in (\<forall>i<n. m' (slotKey (K base) (i div 32)) \<noteq> None
                  \<and> mapGet m' (slotKey (K base) (i div 32)) ! (i mod 32) = data' ! i
                  \<and> length (slotKey (K base) (i div 32)) = 32
                  \<and> bytesToNat (slotKey (K base) (i div 32))
                      = (bytesToNat (K base) + i div 32) mod 2 ^ 256)
          \<and> wfStorage m'
          \<and> (\<forall>p<32. n \<le> 32 * ((n - 1) div 32) + p \<and> lastKey \<noteq> BytesToHash base \<longrightarrow>
                 mapGet m' lastKey ! p = mapGet m lastKey ! p
               \<and> (m lastKey = None \<longrightarrow> mapGet m' lastKey ! p = 0))
          \<and> decodeBytes m' (K base) n = data'"
proof -
  let ?m' = "setBytesToStorage K m base data'"
  let ?n = "length data'"
  let ?last = "slotKey (K base) ((?n - 1) div 32)"
  have kv: "length (slotKey (K base) (i div 32)) = 32
      \<and> bytesToNat (slotKey (K base) (i div 32)) = (bytesToNat (K base) + i div 32) mod 2 ^ 256"
    if "i < ?n" for i
  proof -
    have "i div 32 < 2 ^ 63" using that assms(2) by (simp add: div_less_iff_less_mult)
    then show ?thesis by (simp add: slotKey_value) (simp add: slotKey_def)
  qed
  have a: "\<forall>i<?n. ?m' (slotKey (K base) (i div 32)) \<noteq> None
                  \<and> mapGet ?m' (slotKey (K base) (i div 32)) ! (i mod 32) = data' ! i
                  \<and> length (slotKey (K base) (i div 32)) = 32
                  \<and> bytesToNat (slotKey (K base) (i div 32))
                      = (bytesToNat (K base) + i div 32) mod 2 ^ 256"
    using long_dom [OF assms(1)] long_bytes [OF assms] kv by blast
  have b: "wfStorage ?m'" using assms(1,3) by (rule long_wf)
  have k: "(?n - 1) div 32 < 2 ^ 63"
    using assms(2) by (simp add: div_less_iff_less_mult)
  have c: "mapGet ?m' ?last ! p = mapGet m ?last ! p
        \<and> (m ?last = None \<longrightarrow> mapGet ?m' ?last ! p = 0)"
    if "p < 32" "?n \<le> 32 * ((?n - 1) div 32) + p" "?last \<noteq> BytesToHash base" for p
  proof -
    have t: "mapGet ?m' ?last ! p = mapGet m ?last ! p"
      using assms that(1) k that(2,3) by (rule long_tail)
    moreover have "mapGet m ?last ! p = 0" if "m ?last = None"
      using that \<open>p < 32\<close> by (simp add: mapGet_def)
    ultimately show ?thesis by simp
  qed
  have d: "decodeBytes ?m' (K base) ?n = data'" using assms by (rule long_decode)
  from a b c d show ?thesis unfolding Let_def by blast
qed

theorem setBytesToStorage_long_layout_witness:
  "32 \<le> length (replicate 32 (0xAA :: byte) @ [0xBB])
   \<and> length (replicate 32 (0xAA :: byte) @ [0xBB]) < 2 ^ 63
   \<and> wfStorage Map.empty
   \<and> slotKey (toyKeccak [5]) 1 \<noteq> BytesToHash [5]
   \<and> mapGet (setBytesToStorage toyKeccak Map.empty [5] (replicate 32 0xAA @ [0xBB]))
        (slotKey (toyKeccak [5]) 1) ! 0 = 0xBB
   \<and> mapGet (setBytesToStorage toyKeccak Map.empty [5] (replicate 32 0xAA @ [0xBB]))
        (slotKey (toyKeccak [5]) 1) ! 1 = 0
   \<and> decodeBytes (setBytesToStorage toyKeccak Map.empty [5] (replicate 32 0xAA @ [0xBB]))
        (toyKeccak [5]) 33
       = replicate 32 0xAA @ [0xBB]"
proof -
  let ?d = "replicate 32 (0xAA :: byte) @ [0xBB]"
  let ?m' = "setBytesToStorage toyKeccak Map.empty [5] ?d"
  have h1: "32 \<le> length ?d" by simp
  have h2: "length ?d < 2 ^ 63" by simp
  have h3: "wfStorage Map.empty" by simp
  note ne = example_slot_ne
  note t = setBytesToStorage_long_layout [OF h1 h2 h3, of toyKeccak "[5]", unfolded Let_def]
  from t have "mapGet ?m' (slotKey (toyKeccak [5]) (32 div 32)) ! (32 mod 32) = ?d ! 32"
    by (elim conjE allE [of _ 32]) simp
  then have b0: "mapGet ?m' (slotKey (toyKeccak [5]) 1) ! 0 = 0xBB"
    by (simp add: nth_append)
  from t ne have b1: "mapGet ?m' (slotKey (toyKeccak [5]) 1) ! 1 = 0"
    by (elim conjE allE [of _ 1]) (simp add: mapGet_def)
  from t have dec: "decodeBytes ?m' (toyKeccak [5]) 33 = ?d" by simp
  from h1 h2 h3 ne b0 b1 dec show ?thesis by blast
qed

section \<open>The genesis account\<close>

text \<open>
  C9 as stated fails: a call can panic. With a non-nil interface value that holds a nil
  \<open>*validators.Set\<close>, and with a set whose only element is nil, the call returns
  neither an account nor an error.
\<close>

theorem PredeployStakingSC_call_panics:
  "PredeployStakingSC_call toyKeccak [] NilSetPointer exampleParams = Panic
   \<and> PredeployStakingSC_call toyKeccak [] (ValidatorSet [None]) exampleParams = Panic"
  by (simp add: PredeployStakingSC_call_def DefaultStakedBalance_parses)

text \<open>
  C9, amended. For every validator set without a nil pointer (the nil interface value,
  or a set with no nil element) and all parameters, the call returns an account and no
  error: parsing the constant \<open>DefaultStakedBalance\<close> succeeds, so the error branch is
  never taken, for no input at all. On a nil set pointer and on a set with a nil
  element the call panics.
\<close>

theorem PredeployStakingSC_call_returns:
  "ParseUint256orHex DefaultStakedBalance = Inr 0x8AC7230489E80000
   \<and> (noNilPointer vals \<longrightarrow>
         (\<exists>acct. PredeployStakingSC_call K scHex vals params = Returns (Inr acct)))
   \<and> (\<not> noNilPointer vals \<longrightarrow> PredeployStakingSC_call K scHex vals params = Panic)
   \<and> (\<forall>err. PredeployStakingSC_call K scHex vals params \<noteq> Returns (Inl err))"
proof (intro conjI impI allI)
  show "ParseUint256orHex DefaultStakedBalance = Inr 0x8AC7230489E80000"
    by (rule DefaultStakedBalance_parses)
  have ret: "\<exists>acct. PredeployStakingSC_call K scHex vals params = Returns (Inr acct)"
    if "noNilPointer vals"
  proof (cases vals)
    case NilValidators
    then show ?thesis
      using PredeployStakingSC_Inr [of K scHex None params]
      by (auto simp: PredeployStakingSC_call_def DefaultStakedBalance_parses)
  next
    case NilSetPointer
    with that show ?thesis by simp
  next
    case (ValidatorSet elems)
    with that show ?thesis
      using PredeployStakingSC_Inr [of K scHex "Some (map the elems)" params]
      by (auto simp: PredeployStakingSC_call_def DefaultStakedBalance_parses)
  qed
  have pan: "PredeployStakingSC_call K scHex vals params = Panic" if "\<not> noNilPointer vals"
    using that by (cases vals) (simp_all add: PredeployStakingSC_call_def DefaultStakedBalance_parses)
  show "\<exists>acct. PredeployStakingSC_call K scHex vals params = Returns (Inr acct)"
    if "noNilPointer vals" using that by (rule ret)
  show "PredeployStakingSC_call K scHex vals params = Panic" if "\<not> noNilPointer vals"
    using that by (rule pan)
  show "PredeployStakingSC_call K scHex vals params \<noteq> Returns (Inl err)" for err
    using ret pan by (cases "noNilPointer vals") auto
qed

theorem PredeployStakingSC_call_returns_witness:
  "noNilPointer NilValidators
   \<and> noNilPointer (ValidatorSet (map Some exampleValidators))
   \<and> \<not> noNilPointer (ValidatorSet [Some (ECDSAValidator (replicate 20 0x33)), None])
   \<and> (\<exists>acct. PredeployStakingSC_call toyKeccak [] NilValidators exampleParams
                 = Returns (Inr acct))
   \<and> (\<exists>acct. PredeployStakingSC_call toyKeccak []
                   (ValidatorSet (map Some exampleValidators)) exampleParams
                 = Returns (Inr acct))
   \<and> PredeployStakingSC_call toyKeccak []
         (ValidatorSet [Some (ECDSAValidator (replicate 20 0x33)), None]) exampleParams = Panic"
proof -
  have a: "noNilPointer NilValidators" by simp
  have b: "noNilPointer (ValidatorSet (map Some exampleValidators))" by auto
  have c: "\<not> noNilPointer (ValidatorSet [Some (ECDSAValidator (replicate 20 0x33)), None])"
    by simp
  from PredeployStakingSC_call_returns [of NilValidators toyKeccak "[]" exampleParams] a
  have 1: "\<exists>acct. PredeployStakingSC_call toyKeccak [] NilValidators exampleParams
      = Returns (Inr acct)" by blast
  from PredeployStakingSC_call_returns
    [of "ValidatorSet (map Some exampleValidators)" toyKeccak "[]" exampleParams] b
  have 2: "\<exists>acct. PredeployStakingSC_call toyKeccak []
      (ValidatorSet (map Some exampleValidators)) exampleParams = Returns (Inr acct)" by blast
  from PredeployStakingSC_call_returns
    [of "ValidatorSet [Some (ECDSAValidator (replicate 20 0x33)), None]" toyKeccak "[]"
        exampleParams] c
  have 3: "PredeployStakingSC_call toyKeccak []
      (ValidatorSet [Some (ECDSAValidator (replicate 20 0x33)), None]) exampleParams = Panic"
    by blast
  from a b c 1 2 3 show ?thesis by (intro conjI)
qed

text \<open>
  C8. With no validators, nil set or empty set alike, the storage map holds the zero
  hash at the key of slot 0 and at the key of slot 4, its keys are exactly the keys of
  the slots 0, 4, 5 and 6, and the balance is 0.
\<close>

theorem PredeployStakingSC_no_validators:
  "PredeployStakingSC K scHex (Some []) params = PredeployStakingSC K scHex None params
   \<and> (\<exists>acct. PredeployStakingSC K scHex None params = Inr acct
         \<and> Storage acct (replicate 32 0) = Some (replicate 32 0)
         \<and> Storage acct (replicate 31 0 @ [4]) = Some (replicate 32 0)
         \<and> dom (Storage acct)
             = {replicate 32 0, replicate 31 0 @ [4], replicate 31 0 @ [5], replicate 31 0 @ [6]}
         \<and> Balance acct = 0)"
proof
  show "PredeployStakingSC K scHex (Some []) params = PredeployStakingSC K scHex None params"
    by (simp add: PredeployStakingSC_Some PredeployStakingSC_None big_Bytes_0 BytesToHash_Nil
        big_NewInt_def)
  show "\<exists>acct. PredeployStakingSC K scHex None params = Inr acct
         \<and> Storage acct (replicate 32 0) = Some (replicate 32 0)
         \<and> Storage acct (replicate 31 0 @ [4]) = Some (replicate 32 0)
         \<and> dom (Storage acct)
             = {replicate 32 0, replicate 31 0 @ [4], replicate 31 0 @ [5], replicate 31 0 @ [6]}
         \<and> Balance acct = 0"
    using scalar_keys_distinct by (auto simp: PredeployStakingSC_None)
qed

text \<open>
  C7. For every validator set of \<open>n\<close> validators (at most \<open>2^63 - 1\<close>, the range of a
  Go \<open>int\<close>; the nil set has none), \<open>PredeployStakingSC\<close> stores at the key of slot 4
  the 32-byte value \<open>n * 0x8AC7230489E80000\<close>, the number that \<open>DefaultStakedBalance\<close>
  parses to, and the balance of the account is the same number.
\<close>

theorem PredeployStakingSC_total_staked:
  assumes "numValidators vals < 2 ^ 63"
  shows "ParseUint256orHex DefaultStakedBalance = Inr 0x8AC7230489E80000
       \<and> (\<exists>acct v. PredeployStakingSC K scHex vals params = Inr acct
             \<and> Storage acct (replicate 31 0 @ [4]) = Some v
             \<and> length v = 32
             \<and> bytesToNat v = numValidators vals * 0x8AC7230489E80000
             \<and> Balance acct = int (numValidators vals) * 0x8AC7230489E80000)"
proof (rule conjI [OF DefaultStakedBalance_parses], cases vals)
  case None
  then show "\<exists>acct v. PredeployStakingSC K scHex vals params = Inr acct
             \<and> Storage acct (replicate 31 0 @ [4]) = Some v
             \<and> length v = 32
             \<and> bytesToNat v = numValidators vals * 0x8AC7230489E80000
             \<and> Balance acct = int (numValidators vals) * 0x8AC7230489E80000"
    using scalar_keys_distinct by (simp add: PredeployStakingSC_None numValidators_def)
next
  case (Some vs)
  let ?st = "fold (predeployValidator K 0x8AC7230489E80000 vs) [0..<length vs] (Map.empty, 0)"
  let ?n = "length vs"
  have n: "?n < 2 ^ 63" using assms Some by (simp add: numValidators_def)
  have s: "snd ?st = int ?n * 0x8AC7230489E80000" by (simp add: staked_loop)
  have "?n * 0x8AC7230489E80000 < 2 ^ 63 * (0x8AC7230489E80000 :: nat)"
    using n by simp
  also have "\<dots> < 2 ^ 256" by simp
  finally have small: "?n * 0x8AC7230489E80000 < 2 ^ 256" .
  have "big_Bytes (snd ?st) = natBytes (?n * 0x8AC7230489E80000)"
    unfolding s big_Bytes_def by (simp add: nat_mult_distrib)
  then have v: "bytesToNat (BytesToHash (big_Bytes (snd ?st))) = ?n * 0x8AC7230489E80000"
    using small by (simp add: bytesToNat_BytesToHash)
  show "\<exists>acct v. PredeployStakingSC K scHex vals params = Inr acct
             \<and> Storage acct (replicate 31 0 @ [4]) = Some v
             \<and> length v = 32
             \<and> bytesToNat v = numValidators vals * 0x8AC7230489E80000
             \<and> Balance acct = int (numValidators vals) * 0x8AC7230489E80000"
    using scalar_keys_distinct v s Some
    by (simp add: PredeployStakingSC_Some Let_def numValidators_def)
qed

theorem PredeployStakingSC_total_staked_witness:
  "numValidators (Some exampleValidators) < 2 ^ 63
   \<and> (\<exists>acct v. PredeployStakingSC toyKeccak [] (Some exampleValidators) exampleParams = Inr acct
          \<and> Storage acct (replicate 31 0 @ [4]) = Some v
          \<and> length v = 32
          \<and> bytesToNat v = 2 * 0x8AC7230489E80000
          \<and> Balance acct = 2 * 0x8AC7230489E80000)"
  using PredeployStakingSC_total_staked [of "Some exampleValidators" toyKeccak "[]" exampleParams]
  by (simp add: numValidators_def exampleValidators_def)

section \<open>The entries of one validator\<close>

lemma scalarKeys_eq:
  "scalarKeys = [replicate 31 0 @ [4], replicate 32 0, replicate 31 0 @ [5], replicate 31 0 @ [6]]"
  by (simp add: scalarKeys_def slot_keys)

lemma upt_split3: "i < n \<Longrightarrow> [0..<n] = [0..<i] @ [i] @ [Suc i..<n]"
  by (metis append_Cons append_Nil le0 le_add_diff_inverse less_imp_le upt_add_eq_append
      upt_conv_Cons)

lemma final_storage_own:
  assumes i: "i < length vs"
    and sc: "set (ownKeys K (vs ! i) i) \<inter> set scalarKeys = {}"
    and ot: "\<forall>j<length vs. j \<noteq> i \<longrightarrow>
               set (writtenKeys K (vs ! j) j) \<inter> set (ownKeys K (vs ! i) i) = {}"
    and key: "key \<in> set (ownKeys K (vs ! i) i)"
  shows "\<exists>acct st. PredeployStakingSC K scHex (Some vs) params = Inr acct
           \<and> (\<forall>k\<in>set (ownKeys K (vs ! i) i). fst st k = None)
           \<and> Storage acct key
               = fst (predeployValidator K 0x8AC7230489E80000 vs i st) key"
proof -
  let ?step = "predeployValidator K 0x8AC7230489E80000 vs"
  let ?sti = "fold ?step [0..<i] (Map.empty, 0)"
  let ?stn = "fold ?step [0..<length vs] (Map.empty, 0)"
  have before: "fst ?sti k = None" if "k \<in> set (ownKeys K (vs ! i) i)" for k
  proof -
    have "fst ?sti k = fst (Map.empty :: storage, 0 :: int) k"
    proof (rule vals_loop_frame)
      fix j assume "j < i"
      with i ot have "set (writtenKeys K (vs ! j) j) \<inter> set (ownKeys K (vs ! i) i) = {}"
        by auto
      with that show "k \<notin> set (writtenKeys K (vs ! j) j)" by auto
    qed
    then show ?thesis by simp
  qed
  have "?stn = fold ?step [Suc i..<length vs] (?step i ?sti)"
    by (simp add: upt_split3 [OF i] del: upt_Suc)
  moreover have "fst (fold ?step [Suc i..<length vs] (?step i ?sti)) key = fst (?step i ?sti) key"
  proof (rule vals_loop_frame)
    fix j assume "Suc i \<le> j" "j < length vs"
    with ot have "set (writtenKeys K (vs ! j) j) \<inter> set (ownKeys K (vs ! i) i) = {}"
      by auto
    with key show "key \<notin> set (writtenKeys K (vs ! j) j)" by auto
  qed
  ultimately have after: "fst ?stn key = fst (?step i ?sti) key" by simp
  from sc key have "key \<notin> set scalarKeys" by auto
  then have "Storage
       \<lparr> Code = scHex,
         Storage = (fst ?stn)
           (replicate 31 0 @ [4] \<mapsto> BytesToHash (big_Bytes (snd ?stn)),
            replicate 32 0 \<mapsto> BytesToHash (big_Bytes (big_NewInt (of_nat (length vs)))),
            replicate 31 0 @ [5] \<mapsto>
              BytesToHash (big_Bytes (big_NewInt (MinValidatorCount params))),
            replicate 31 0 @ [6] \<mapsto>
              BytesToHash (big_Bytes (big_NewInt (MaxValidatorCount params)))),
         Balance = snd ?stn \<rparr> key = fst ?stn key"
    by (simp add: scalarKeys_eq)
  with after before show ?thesis
    unfolding PredeployStakingSC_Some Let_def by (intro exI [of _ ?sti] exI conjI ballI) auto
qed

lemma final_storage_rest:
  assumes "key \<notin> set scalarKeys"
    and "\<forall>j<length vs. key \<notin> set (writtenKeys K (vs ! j) j)"
  shows "\<exists>acct. PredeployStakingSC K scHex (Some vs) params = Inr acct
           \<and> Storage acct key = None"
proof -
  let ?stn = "fold (predeployValidator K 0x8AC7230489E80000 vs) [0..<length vs] (Map.empty, 0)"
  have "fst ?stn key = fst (Map.empty :: storage, 0 :: int) key"
    using assms(2) by (intro vals_loop_frame) auto
  then show ?thesis
    using assms(1) unfolding PredeployStakingSC_Some Let_def by (simp add: scalarKeys_eq)
qed

lemma own_values:
  "length (BytesToHash (big_Bytes (big_NewInt 1))) = 32"
  "bytesToNat (BytesToHash (big_Bytes (big_NewInt 1))) = 1"
  "length (StringToHash (EncodeBig 0x8AC7230489E80000)) = 32"
  "bytesToNat (StringToHash (EncodeBig 0x8AC7230489E80000)) = 0x8AC7230489E80000"
  "length (StringToHash (EncodeUint64 w)) = 32"
  by (simp_all add: big_Bytes_def big_NewInt_def natBytes_byte BytesToHash_single
      StringToHash_def StringToHash_EncodeBig [unfolded StringToHash_def])

lemma index_value:
  assumes "i < 2 ^ 63"
  shows "bytesToNat (StringToHash (EncodeUint64 (of_nat i))) = i"
proof -
  have "i < 2 ^ 64" using assms by (rule less_trans) simp
  then have "unat (of_nat i :: 64 word) = i" by (simp add: unat_of_nat)
  then show ?thesis by (simp add: StringToHash_EncodeUint64)
qed

lemma BytesToHash_address: "length a = 20 \<Longrightarrow> BytesToHash a = replicate 12 0 @ a"
  by (simp add: BytesToHash_def HashLength_def)

text \<open>What \<open>setBytesToStorage\<close> leaves at the keys of a packed byte string.\<close>

lemma packed_short:
  assumes "length pk \<le> 31"
  shows "setBytesToStorage K m base pk (BytesToHash base)
           = Some (pk @ replicate (31 - length pk) 0 @ [of_nat (length pk * 2)])"
  using assms by (simp add: setBytesToStorage_def Let_def HashLength_def short_slot)

lemma packed_flag:
  assumes long: "32 \<le> length pk" and d: "distinct (bytesKeys K base pk)"
  shows "setBytesToStorage K m base pk (BytesToHash base)
           = Some (replicate 31 0 @ [of_nat (2 * length pk + 1)])"
proof -
  let ?b = "zeroHash[31 := of_nat (2 * length pk + 1)]"
  have "fold (setBytesStep (K base) pk) [0..<length pk] (m(BytesToHash base \<mapsto> ?b))
          (BytesToHash base) = (m(BytesToHash base \<mapsto> ?b)) (BytesToHash base)"
  proof (rule loop_frame)
    fix k assume "k * 32 < length pk"
    then have "k < (length pk + 31) div 32" by arith
    then have "slotKey (K base) k \<in> set (map (slotKey (K base)) [0..<(length pk + 31) div 32])"
      by simp
    with long d show "BytesToHash base \<noteq> slotKey (K base) k"
      by (auto simp: bytesKeys_def)
  qed
  then show ?thesis
    by (simp add: setBytesToStorage_long [OF long] zeroHash_upd_31)
qed

lemma packed_byte:
  assumes long: "32 \<le> length pk" and n: "length pk < 2 ^ 63" and j: "j < length pk"
  shows "\<exists>v. setBytesToStorage K Map.empty base pk (slotKey (K base) (j div 32)) = Some v
           \<and> length v = 32 \<and> v ! (j mod 32) = pk ! j"
proof -
  let ?m = "setBytesToStorage K Map.empty base pk"
  from long_dom [OF long j, of K Map.empty base]
  obtain v where v: "?m (slotKey (K base) (j div 32)) = Some v" by auto
  then have g: "mapGet ?m (slotKey (K base) (j div 32)) = v" by (simp add: mapGet_def)
  have "wfStorage ?m" using long by (intro long_wf) simp_all
  with v have "length v = 32" by (auto simp: wfStorage_def)
  moreover have "v ! (j mod 32) = pk ! j"
    using long_bytes [OF long n wfStorage_empty j, of K base] g by simp
  ultimately show ?thesis using v by simp
qed

lemma packed_tail:
  assumes long: "32 \<le> length pk" and n: "length pk < 2 ^ 63"
    and d: "distinct (bytesKeys K base pk)"
    and j: "length pk \<le> j" "j < 32 * ((length pk + 31) div 32)"
  shows "\<exists>v. setBytesToStorage K Map.empty base pk (slotKey (K base) (j div 32)) = Some v
           \<and> length v = 32 \<and> v ! (j mod 32) = 0"
proof -
  let ?m = "setBytesToStorage K Map.empty base pk"
  let ?k = "j div 32"
  have k: "?k < (length pk + 31) div 32" using j(2) by (simp add: div_less_iff_less_mult)
  then have k32: "32 * ?k < length pk" by arith
  have "(32 * ?k) div 32 = ?k" by simp
  with long_dom [OF long k32, of K Map.empty base]
  obtain v where v: "?m (slotKey (K base) ?k) = Some v" by auto
  then have g: "mapGet ?m (slotKey (K base) ?k) = v" by (simp add: mapGet_def)
  have "wfStorage ?m" using long by (intro long_wf) simp_all
  with v have len: "length v = 32" by (auto simp: wfStorage_def)
  have "slotKey (K base) ?k \<in> set (map (slotKey (K base)) [0..<(length pk + 31) div 32])"
    using k by simp
  with long d have ne: "slotKey (K base) ?k \<noteq> BytesToHash base"
    by (auto simp: bytesKeys_def)
  have k63: "?k < 2 ^ 63" using k32 n by simp
  have le: "length pk \<le> 32 * ?k + j mod 32" using j(1) by simp
  have "mapGet ?m (slotKey (K base) ?k) ! (j mod 32)
      = mapGet Map.empty (slotKey (K base) ?k) ! (j mod 32)"
    using long_tail [of pk Map.empty "j mod 32" ?k K base] long n k63 le ne by simp
  then have "v ! (j mod 32) = 0" unfolding g by (simp add: mapGet_def)
  with v len show ?thesis by simp
qed

text \<open>
  Two validators with the same address: the second iteration writes the keys of the
  first one again, and the four scalar writes follow.
\<close>

lemma duplicate_loop:
  "fst (fold (predeployValidator K bal duplicateValidators) [0..<length duplicateValidators]
          (Map.empty, 0))
     (BytesToHash (getAddressMapping K (replicate 20 0x33) 3))
     = Some (StringToHash (EncodeUint64 1))"
  by (simp add: duplicateValidators_def upt_0_2 fst_predeployValidator Let_def)

lemma duplicate_storage:
  "\<exists>acct. PredeployStakingSC K scHex (Some duplicateValidators) exampleParams = Inr acct
     \<and> Storage acct (BytesToHash (getAddressMapping K (replicate 20 0x33) 3))
         \<in> {Some (StringToHash (EncodeUint64 1)),
             Some (BytesToHash (big_Bytes (2 * 0x8AC7230489E80000))),
             Some (BytesToHash (big_Bytes (big_NewInt 2))),
             Some (BytesToHash (big_Bytes (big_NewInt 1))),
             Some (BytesToHash (big_Bytes (big_NewInt 5)))}"
proof -
  let ?st = "fold (predeployValidator K 0x8AC7230489E80000 duplicateValidators)
      [0..<length duplicateValidators] (Map.empty, 0)"
  have s: "snd ?st = 2 * 0x8AC7230489E80000"
    by (simp only: staked_loop) (simp add: duplicateValidators_def)
  have l: "length duplicateValidators = 2" by (simp add: duplicateValidators_def)
  show ?thesis
    unfolding PredeployStakingSC_Some Let_def s
    by (simp add: duplicate_loop [unfolded l] l exampleParams_def)
qed

lemma duplicate_values:
  "bytesToNat (StringToHash (EncodeUint64 1)) = 1"
  "length (StringToHash (EncodeUint64 1)) = 32"
  "bytesToNat (BytesToHash (big_Bytes (2 * 0x8AC7230489E80000))) \<noteq> 0"
  "bytesToNat (BytesToHash (big_Bytes (big_NewInt 2))) \<noteq> 0"
  "bytesToNat (BytesToHash (big_Bytes (big_NewInt 1))) \<noteq> 0"
  "bytesToNat (BytesToHash (big_Bytes (big_NewInt 5))) \<noteq> 0"
  by (simp_all add: StringToHash_EncodeUint64 own_values bytesToNat_BytesToHash big_Bytes_def
      big_NewInt_def)

lemma example_duplicate_key:
  "BytesToHash (getAddressMapping toyKeccak (replicate 20 0x33) 3) \<notin> set scalarKeys"
  unfolding scalarKeys_eq by (simp add: eval_defs)




end
